theory Spec2Isabelle
  imports Main "HOL-Library.Word"
begin

section \<open>Go strings and the library functions the code calls\<close>

text \<open>
  A Go string is a sequence of bytes, and \<open>len\<close> counts bytes. Isabelle's \<open>char\<close> is
  a byte, so a Go string is a \<open>string\<close> here and \<open>len\<close> is \<open>length\<close>.
\<close>

subsection \<open>strings.Split, strings.Join, strings.ReplaceAll\<close>

text \<open>
  \<open>strings.Split(s, sep)\<close> for a separator of one byte, which is how the code calls it
  (\<open>"."\<close> and \<open>","\<close>). The result always has at least one element: splitting the empty
  string gives one empty piece.
\<close>

fun Split :: "string \<Rightarrow> char \<Rightarrow> string list" where
  "Split [] sep = [[]]"
| "Split (c # cs) sep =
     (if c = sep then [] # Split cs sep
      else (case Split cs sep of [] \<Rightarrow> [[c]] | p # ps \<Rightarrow> (c # p) # ps))"

fun Join :: "string list \<Rightarrow> string \<Rightarrow> string" where
  "Join [] sep = []"
| "Join [x] sep = x"
| "Join (x # y # ys) sep = x @ sep @ Join (y # ys) sep"

text \<open>\<open>strings.ReplaceAll(s, old, new)\<close> for an \<open>old\<close> of one byte.\<close>

fun ReplaceAll :: "string \<Rightarrow> char \<Rightarrow> string \<Rightarrow> string" where
  "ReplaceAll [] old new = []"
| "ReplaceAll (c # cs) old new =
     (if c = old then new @ ReplaceAll cs old new else c # ReplaceAll cs old new)"

subsection \<open>Regular expressions\<close>

text \<open>
  The two patterns of the code are built from byte classes, a literal byte, sequencing
  and iteration, anchored at both ends by \<open>^\<close> and \<open>$\<close>. \<open>MatchString\<close> decides
  whether the whole string matches, by taking the derivative of the expression along
  the string. Every class of the code holds ASCII bytes only, so matching bytes and
  matching UTF-8 code points (which is what Go's engine does) agree: a byte of a
  multi-byte or ill-formed sequence is in no class either way.
\<close>

datatype regexp =
    Never
  | Empty
  | Lit char
  | Class "(char \<times> char) list"
  | Alt regexp regexp
  | Seq regexp regexp
  | Star regexp

definition in_class :: "(char \<times> char) list \<Rightarrow> char \<Rightarrow> bool" where
  "in_class rs c =
     list_ex (\<lambda>(lo, hi). (of_char lo :: nat) \<le> of_char c \<and> (of_char c :: nat) \<le> of_char hi) rs"

fun nullable :: "regexp \<Rightarrow> bool" where
  "nullable Never = False"
| "nullable Empty = True"
| "nullable (Lit c) = False"
| "nullable (Class rs) = False"
| "nullable (Alt r s) = (nullable r \<or> nullable s)"
| "nullable (Seq r s) = (nullable r \<and> nullable s)"
| "nullable (Star r) = True"

fun deriv :: "char \<Rightarrow> regexp \<Rightarrow> regexp" where
  "deriv c Never = Never"
| "deriv c Empty = Never"
| "deriv c (Lit d) = (if c = d then Empty else Never)"
| "deriv c (Class rs) = (if in_class rs c then Empty else Never)"
| "deriv c (Alt r s) = Alt (deriv c r) (deriv c s)"
| "deriv c (Seq r s) =
     (if nullable r then Alt (Seq (deriv c r) s) (deriv c s) else Seq (deriv c r) s)"
| "deriv c (Star r) = Seq (deriv c r) (Star r)"

fun MatchString :: "regexp \<Rightarrow> string \<Rightarrow> bool" where
  "MatchString r [] = nullable r"
| "MatchString r (c # cs) = MatchString (deriv c r) cs"


text \<open>
  The languages of these expressions, to reason about \<open>MatchString\<close>: \<open>conc\<close> is
  concatenation of two languages and \<open>star\<close> is iteration.
\<close>

definition conc :: "string set \<Rightarrow> string set \<Rightarrow> string set" where
  "conc A B = {u @ v | u v. u \<in> A \<and> v \<in> B}"

inductive_set star :: "string set \<Rightarrow> string set" for A :: "string set" where
  star_nil: "[] \<in> star A"
| star_app: "u \<in> A \<Longrightarrow> v \<in> star A \<Longrightarrow> u @ v \<in> star A"

fun lang :: "regexp \<Rightarrow> string set" where
  "lang Never = {}"
| "lang Empty = {[]}"
| "lang (Lit c) = {[c]}"
| "lang (Class rs) = {[c] | c. in_class rs c}"
| "lang (Alt r s) = lang r \<union> lang s"
| "lang (Seq r s) = conc (lang r) (lang s)"
| "lang (Star r) = star (lang r)"

subsection \<open>Errors\<close>

text \<open>
  A Go \<open>error\<close> value is \<open>error option\<close>, \<open>None\<close> for \<open>nil\<close>. \<open>Errorf msg\<close> is what
  \<open>fmt.Errorf\<close> returns, with its formatted message; \<open>NumError fn num e\<close> is
  \<open>*strconv.NumError\<close>; \<open>EscapeError\<close> is \<open>url.EscapeError\<close>.
\<close>

datatype num_err = ErrSyntax | ErrRange

datatype error =
    Errorf string
  | NumError string string num_err
  | EscapeError string

subsection \<open>Integers: fmt's \<open>%d\<close> and strconv.Atoi\<close>

text \<open>
  A Go \<open>int\<close> is 64 bits wide on the platforms the server is built for: a \<open>64 word\<close>,
  read as signed by \<open>sint\<close>. Addition and subtraction wrap around.
\<close>

type_synonym go_int = "64 word"

definition digit_char :: "nat \<Rightarrow> char" where
  "digit_char d = ''0123456789'' ! d"

fun digits :: "nat \<Rightarrow> string" where
  "digits n = (if n < 10 then [digit_char n] else digits (n div 10) @ [digit_char (n mod 10)])"

declare digits.simps [simp del]

text \<open>\<open>fmt.Sprintf("%d", w)\<close>: the signed decimal numeral.\<close>

definition fmt_d :: "go_int \<Rightarrow> string" where
  "fmt_d w = (if sint w < 0 then CHR ''-'' # digits (nat (- sint w)) else digits (nat (sint w)))"

text \<open>
  \<open>strconv.Atoi\<close>. Strings of 1 to 18 bytes take the fast path: an optional sign, then
  digits only, accumulated without any overflow check (none is possible below 19 bytes).
\<close>

fun atoi_fast_loop :: "go_int \<Rightarrow> string \<Rightarrow> go_int option" where
  "atoi_fast_loop n [] = Some n"
| "atoi_fast_loop n (ch # cs) =
     (let d = (of_char ch :: 8 word) - 48
      in if d > 9 then None else atoi_fast_loop (n * 10 + ucast d) cs)"

definition atoi_fast :: "string \<Rightarrow> go_int \<times> error option" where
  "atoi_fast s0 =
     (let s = (if hd s0 = CHR ''-'' \<or> hd s0 = CHR ''+'' then tl s0 else s0)
      in if length s < 1 then (0, Some (NumError ''Atoi'' s0 ErrSyntax))
         else (case atoi_fast_loop 0 s of
                 None \<Rightarrow> (0, Some (NumError ''Atoi'' s0 ErrSyntax))
               | Some n \<Rightarrow> (if hd s0 = CHR ''-'' then - n else n, None)))"

text \<open>
  Everything else takes \<open>ParseInt(s, 10, 0)\<close>, whose digits \<open>ParseUint\<close> reads into a
  \<open>uint64\<close>, stopping at the first byte that is no decimal digit (a syntax error) or
  at the first overflow (a range error). \<open>cutoff\<close> is \<open>maxUint64/10 + 1\<close>.
\<close>

definition uint_cutoff :: "64 word" where
  "uint_cutoff = 1844674407370955162"

fun ParseUint_loop :: "64 word \<Rightarrow> string \<Rightarrow> 64 word \<times> num_err option" where
  "ParseUint_loop n [] = (n, None)"
| "ParseUint_loop n (c # cs) =
     (if \<not> ((48::nat) \<le> of_char c \<and> (of_char c :: nat) \<le> 57) then (0, Some ErrSyntax)
      else let d = (of_char c :: 64 word) - 48 in
        if n \<ge> uint_cutoff then (- 1, Some ErrRange)
        else let n10 = n * 10; n1 = n10 + d in
          if n1 < n10 \<or> n1 > - 1 then (- 1, Some ErrRange)
          else ParseUint_loop n1 cs)"

definition ParseUint :: "string \<Rightarrow> 64 word \<times> num_err option" where
  "ParseUint s = (if s = [] then (0, Some ErrSyntax) else ParseUint_loop 0 s)"

definition ParseInt :: "string \<Rightarrow> go_int \<times> num_err option" where
  "ParseInt s0 =
     (if s0 = [] then (0, Some ErrSyntax)
      else let neg = (hd s0 = CHR ''-'');
               s = (if hd s0 = CHR ''+'' \<or> hd s0 = CHR ''-'' then tl s0 else s0);
               (un, err) = ParseUint s
           in if err = Some ErrSyntax then (0, err)
              else if \<not> neg \<and> un \<ge> 2 ^ 63 then (2 ^ 63 - 1, Some ErrRange)
              else if neg \<and> un > 2 ^ 63 then (- (2 ^ 63), Some ErrRange)
              else (if neg then - un else un, None))"

definition Atoi :: "string \<Rightarrow> go_int \<times> error option" where
  "Atoi s =
     (if 0 < length s \<and> length s < 19 then atoi_fast s
      else (case ParseInt s of
              (i64, None) \<Rightarrow> (i64, None)
            | (i64, Some e) \<Rightarrow> (i64, Some (NumError ''Atoi'' s e))))"

subsection \<open>UTF-8 and package unicode\<close>

text \<open>
  \<open>for _, r := range s\<close> walks the code points of \<open>s\<close>: \<open>DecodeRune\<close> reads one
  from the front of the bytes and says how many bytes it took. Bytes that do not start a
  well-formed sequence (a stray continuation byte, an overlong form, a surrogate, a value
  above U+10FFFF, a sequence cut short) give U+FFFD and take one byte.
\<close>

type_synonym rune = nat

definition RuneError :: rune where
  "RuneError = 0xFFFD"

definition cont_byte :: "nat \<Rightarrow> bool" where
  "cont_byte b = (0x80 \<le> b \<and> b \<le> 0xBF)"

text \<open>The range allowed for the second byte, which depends on the first.\<close>

definition second_lo :: "nat \<Rightarrow> nat" where
  "second_lo b0 = (if b0 = 0xE0 then 0xA0 else if b0 = 0xF0 then 0x90 else 0x80)"

definition second_hi :: "nat \<Rightarrow> nat" where
  "second_hi b0 = (if b0 = 0xED then 0x9F else if b0 = 0xF4 then 0x8F else 0xBF)"

fun DecodeRune :: "nat list \<Rightarrow> rune \<times> nat" where
  "DecodeRune [] = (RuneError, 0)"
| "DecodeRune (b0 # bs) =
     (if b0 < 0x80 then (b0, 1)
      else if 0xC2 \<le> b0 \<and> b0 \<le> 0xDF then
        (case bs of
           b1 # _ \<Rightarrow>
             if cont_byte b1 then ((b0 - 0xC0) * 64 + (b1 - 0x80), 2) else (RuneError, 1)
         | _ \<Rightarrow> (RuneError, 1))
      else if 0xE0 \<le> b0 \<and> b0 \<le> 0xEF then
        (case bs of
           b1 # b2 # _ \<Rightarrow>
             if second_lo b0 \<le> b1 \<and> b1 \<le> second_hi b0 \<and> cont_byte b2
             then ((b0 - 0xE0) * 4096 + (b1 - 0x80) * 64 + (b2 - 0x80), 3)
             else (RuneError, 1)
         | _ \<Rightarrow> (RuneError, 1))
      else if 0xF0 \<le> b0 \<and> b0 \<le> 0xF4 then
        (case bs of
           b1 # b2 # b3 # _ \<Rightarrow>
             if second_lo b0 \<le> b1 \<and> b1 \<le> second_hi b0 \<and> cont_byte b2 \<and> cont_byte b3
             then ((b0 - 0xF0) * 262144 + (b1 - 0x80) * 4096 + (b2 - 0x80) * 64 + (b3 - 0x80), 4)
             else (RuneError, 1)
         | _ \<Rightarrow> (RuneError, 1))
      else (RuneError, 1))"

function decode_all :: "nat list \<Rightarrow> rune list" where
  "decode_all [] = []"
| "decode_all (b # bs) = fst (DecodeRune (b # bs)) # decode_all (drop (snd (DecodeRune (b # bs))) (b # bs))"
  by pat_completeness auto
termination
  by (relation "measure length") (auto split: list.splits)

declare decode_all.simps(2) [simp del]

definition runes :: "string \<Rightarrow> rune list" where
  "runes s = decode_all (map of_char s)"

text \<open>
  \<open>unicode.IsLetter\<close> and \<open>unicode.IsDigit\<close> answer from a fixed table up to U+00FF
  and from the range tables of the Unicode database above. The range tables are not
  reproduced: they are the parameter \<open>U\<close>.
\<close>

record unicode_tables =
  Letter :: "rune \<Rightarrow> bool"
  Digit :: "rune \<Rightarrow> bool"

definition latin1_letter :: "rune \<Rightarrow> bool" where
  "latin1_letter r =
     ((0x41 \<le> r \<and> r \<le> 0x5A) \<or> (0x61 \<le> r \<and> r \<le> 0x7A) \<or> r = 0xAA \<or> r = 0xB5 \<or> r = 0xBA \<or>
      (0xC0 \<le> r \<and> r \<le> 0xD6) \<or> (0xD8 \<le> r \<and> r \<le> 0xF6) \<or> (0xF8 \<le> r \<and> r \<le> 0xFF))"

definition IsLetter :: "unicode_tables \<Rightarrow> rune \<Rightarrow> bool" where
  "IsLetter U r = (if r \<le> 0xFF then latin1_letter r else Letter U r)"

definition IsDigit :: "unicode_tables \<Rightarrow> rune \<Rightarrow> bool" where
  "IsDigit U r = (if r \<le> 0xFF then 0x30 \<le> r \<and> r \<le> 0x39 else Digit U r)"

subsection \<open>url.QueryUnescape\<close>

definition ishex :: "char \<Rightarrow> bool" where
  "ishex c = (let n = (of_char c :: nat) in
     (48 \<le> n \<and> n \<le> 57) \<or> (97 \<le> n \<and> n \<le> 102) \<or> (65 \<le> n \<and> n \<le> 70))"

definition unhex :: "char \<Rightarrow> nat" where
  "unhex c = (let n = (of_char c :: nat) in
     if 48 \<le> n \<and> n \<le> 57 then n - 48
     else if 97 \<le> n \<and> n \<le> 102 then n - 97 + 10
     else if 65 \<le> n \<and> n \<le> 70 then n - 65 + 10
     else 0)"

text \<open>The first pass looks for a \<open>%\<close> that two hexadecimal digits do not follow.\<close>

fun unescape_check :: "string \<Rightarrow> error option" where
  "unescape_check [] = None"
| "unescape_check (c # cs) =
     (if c = CHR ''%'' then
        (case cs of
           h1 # h2 # rest \<Rightarrow>
             if ishex h1 \<and> ishex h2 then unescape_check rest
             else Some (EscapeError (take 3 (c # cs)))
         | _ \<Rightarrow> Some (EscapeError (take 3 (c # cs))))
      else unescape_check cs)"

fun unescape_build :: "string \<Rightarrow> string" where
  "unescape_build [] = []"
| "unescape_build (c # cs) =
     (if c = CHR ''%'' then
        (case cs of
           h1 # h2 # rest \<Rightarrow> char_of (unhex h1 * 16 + unhex h2) # unescape_build rest
         | _ \<Rightarrow> [])
      else if c = CHR ''+'' then CHR '' '' # unescape_build cs
      else c # unescape_build cs)"

definition QueryUnescape :: "string \<Rightarrow> string \<times> error option" where
  "QueryUnescape s =
     (case unescape_check s of
        Some e \<Rightarrow> ([], Some e)
      | None \<Rightarrow> (unescape_build s, None))"

section \<open>Package ident\<close>

text \<open>\<open>[A-Za-z_]\<close> and \<open>[A-Za-z0-9_]\<close>.\<close>

definition first_class :: "(char \<times> char) list" where
  "first_class = [(CHR ''A'', CHR ''Z''), (CHR ''a'', CHR ''z''), (CHR ''_'', CHR ''_'')]"

definition rest_class :: "(char \<times> char) list" where
  "rest_class =
     [(CHR ''A'', CHR ''Z''), (CHR ''a'', CHR ''z''), (CHR ''0'', CHR ''9''), (CHR ''_'', CHR ''_'')]"

text \<open>\<open>[A-Za-z_][A-Za-z0-9_]*\<close>, the shape of one segment.\<close>

definition segment_re :: regexp where
  "segment_re = Seq (Class first_class) (Star (Class rest_class))"

text \<open>\<open>^[A-Za-z_][A-Za-z0-9_]*(\.[A-Za-z_][A-Za-z0-9_]*)*$\<close>\<close>

definition re :: regexp where
  "re = Seq segment_re (Star (Seq (Lit (CHR ''.'')) segment_re))"

text \<open>
  The same shape said without a pattern: a first byte of the first class, then bytes of
  the second class. \<open>dotted\<close> is the language of the pattern's tail \<open>(\.segment)*\<close>.
\<close>

definition seg_shape :: "string \<Rightarrow> bool" where
  "seg_shape p =
     (case p of [] \<Rightarrow> False | c # cs \<Rightarrow> in_class first_class c \<and> list_all (in_class rest_class) cs)"

definition dotted :: "string set" where
  "dotted = star (conc {[CHR ''.'']} (lang segment_re))"

text \<open>
  The shape of a segment once more, this time from its description and with no reference
  to the pattern or to its classes: the first byte is an ASCII letter or the underscore,
  every later byte is an ASCII letter, a digit or the underscore.
\<close>

definition ident_start :: "char \<Rightarrow> bool" where
  "ident_start c =
     (let n = (of_char c :: nat) in (0x41 \<le> n \<and> n \<le> 0x5A) \<or> (0x61 \<le> n \<and> n \<le> 0x7A) \<or> n = 0x5F)"

definition ident_char :: "char \<Rightarrow> bool" where
  "ident_char c =
     (let n = (of_char c :: nat) in
        (0x41 \<le> n \<and> n \<le> 0x5A) \<or> (0x61 \<le> n \<and> n \<le> 0x7A) \<or> (0x30 \<le> n \<and> n \<le> 0x39) \<or> n = 0x5F)"

definition identifier_shape :: "string \<Rightarrow> bool" where
  "identifier_shape seg =
     (case seg of [] \<Rightarrow> False | c # cs \<Rightarrow> ident_start c \<and> list_all ident_char cs)"

text \<open>The loop of \<open>IsValid\<close> over the pieces: it returns false at the first bad one.\<close>

fun parts_len_ok :: "string list \<Rightarrow> bool" where
  "parts_len_ok [] = True"
| "parts_len_ok (part # parts) =
     (if length part = 0 \<or> length part > 63 then False else parts_len_ok parts)"

definition IsValid :: "string \<Rightarrow> bool" where
  "IsValid s = (if \<not> MatchString re s then False else parts_len_ok (Split s (CHR ''.'')))"


text \<open>The loop of \<open>IsSafeSegment\<close> over the code points of \<open>s\<close>.\<close>

definition safe_rune :: "unicode_tables \<Rightarrow> rune \<Rightarrow> bool" where
  "safe_rune U r = (IsLetter U r \<or> IsDigit U r \<or> r = 0x5F \<or> r = 0x2D)"

fun all_safe :: "unicode_tables \<Rightarrow> rune list \<Rightarrow> bool" where
  "all_safe U [] = True"
| "all_safe U (r # rs) = (if \<not> safe_rune U r then False else all_safe U rs)"

definition IsSafeSegment :: "unicode_tables \<Rightarrow> string \<Rightarrow> bool" where
  "IsSafeSegment U s = (if s = [] \<or> length s > 63 then False else all_safe U (runes s))"

text \<open>
  For statements about \<open>IsSafeSegment\<close>, written from the description and with no
  reference to the code's test. \<open>ascii_safe_char\<close>: the byte is an ASCII letter, a digit,
  the underscore or the hyphen. \<open>safe_code_point\<close>: the code point is a letter, a digit,
  the underscore or the hyphen; the letters and digits up to U+00FF are listed, those above
  are the entries of the range tables. \<open>unicode_space\<close>: the code points with the
  property White_Space. Then range tables with nothing above U+00FF, to evaluate the
  function on concrete strings, and the letter U+00E9 (two bytes in UTF-8) 32 times.
\<close>

definition ascii_safe_char :: "char \<Rightarrow> bool" where
  "ascii_safe_char c =
     (let n = (of_char c :: nat) in
        (0x41 \<le> n \<and> n \<le> 0x5A) \<or> (0x61 \<le> n \<and> n \<le> 0x7A) \<or> (0x30 \<le> n \<and> n \<le> 0x39) \<or>
        n = 0x5F \<or> n = 0x2D)"

definition safe_code_point :: "unicode_tables \<Rightarrow> rune \<Rightarrow> bool" where
  "safe_code_point U r =
     ((0x41 \<le> r \<and> r \<le> 0x5A) \<or> (0x61 \<le> r \<and> r \<le> 0x7A) \<or> (0x30 \<le> r \<and> r \<le> 0x39) \<or>
      r = 0x5F \<or> r = 0x2D \<or>
      r = 0xAA \<or> r = 0xB5 \<or> r = 0xBA \<or> (0xC0 \<le> r \<and> r \<le> 0xFF \<and> r \<noteq> 0xD7 \<and> r \<noteq> 0xF7) \<or>
      (0xFF < r \<and> (Letter U r \<or> Digit U r)))"

definition unicode_space :: "rune \<Rightarrow> bool" where
  "unicode_space r =
     ((0x09 \<le> r \<and> r \<le> 0x0D) \<or> r = 0x20 \<or> r = 0x85 \<or> r = 0xA0 \<or> r = 0x1680 \<or>
      (0x2000 \<le> r \<and> r \<le> 0x200A) \<or> r = 0x2028 \<or> r = 0x2029 \<or> r = 0x202F \<or> r = 0x205F \<or>
      r = 0x3000)"

definition no_entry :: "rune \<Rightarrow> bool" where
  "no_entry r = False"

definition latin1_tables :: unicode_tables where
  "latin1_tables = \<lparr>Letter = no_entry, Digit = no_entry\<rparr>"

definition e_acute_32 :: string where
  "e_acute_32 = concat (replicate 32 [CHR 0xC3, CHR 0xA9])"

text \<open>The double quote, and one piece between double quotes with its own quotes doubled.\<close>

definition dq :: char where
  "dq = CHR 0x22"

definition quote_part :: "string \<Rightarrow> string" where
  "quote_part p = [dq] @ ReplaceAll p dq [dq, dq] @ [dq]"

definition invalid_identifier :: "string \<Rightarrow> error" where
  "invalid_identifier s = Errorf (''invalid identifier: '' @ s)"

definition Quote :: "string \<Rightarrow> string \<times> error option" where
  "Quote s =
     (if \<not> IsValid s then ([], Some (invalid_identifier s))
      else (Join (map quote_part (Split s (CHR ''.''))) ''.'', None))"

text \<open>
  The loop of \<open>SplitAndValidateCSV\<close>: it walks the pieces and returns at the first
  invalid one; \<open>parts\<close> is what it returns when it reaches the end. A nil slice is the
  empty list.
\<close>

fun csv_loop :: "string list \<Rightarrow> string list \<Rightarrow> string list \<times> error option" where
  "csv_loop [] parts = (parts, None)"
| "csv_loop (p # ps) parts =
     (if \<not> IsValid p then ([], Some (invalid_identifier p)) else csv_loop ps parts)"

definition SplitAndValidateCSV :: "string \<Rightarrow> string list \<times> error option" where
  "SplitAndValidateCSV s =
     (if s = [] then ([], None)
      else let parts = Split s (CHR '','') in csv_loop parts parts)"

section \<open>Package template\<close>

text \<open>
  A value of Template Data is an \<open>interface{}\<close>: nil, a string, a slice of strings, or a
  value of any other type, which the registry only stores and formats.
\<close>

datatype 'a val = Nil | String string | Strings "string list" | Other 'a

record 'a FuncRegistry =
  TemplateData :: "string \<rightharpoonup> 'a val"
  Args :: "'a val list"
  next' :: go_int

text \<open>The struct literal \<open>FuncRegistry{TemplateData: td}\<close>: no argument yet, counter 0.\<close>

definition fresh :: "(string \<rightharpoonup> 'a val) \<Rightarrow> 'a FuncRegistry" where
  "fresh td = \<lparr>TemplateData = td, Args = [], next' = 0\<rparr>"

text \<open>\<open>fr.TemplateData[key]\<close>: the nil interface when the key is absent.\<close>

definition lookup :: "'a FuncRegistry \<Rightarrow> string \<Rightarrow> 'a val" where
  "lookup fr key = (case TemplateData fr key of None \<Rightarrow> Nil | Some v \<Rightarrow> v)"

definition isSet :: "string \<Rightarrow> 'a FuncRegistry \<Rightarrow> bool" where
  "isSet key fr = (TemplateData fr key \<noteq> None)"

definition defaultOrValue :: "string \<Rightarrow> string \<Rightarrow> 'a FuncRegistry \<Rightarrow> 'a val \<times> 'a FuncRegistry" where
  "defaultOrValue key defaultValue fr =
     (let fr1 = (if \<not> isSet key fr
                 then fr\<lparr>TemplateData := (TemplateData fr)(key \<mapsto> String defaultValue)\<rparr>
                 else fr)
      in (lookup fr1 key, fr1))"

text \<open>
  \<open>%v\<close> of a value: \<open>fmtv\<close> formats the values of the types that are not modelled.
\<close>

definition sq :: char where
  "sq = CHR 0x27"

fun fmt_v :: "('a \<Rightarrow> string) \<Rightarrow> 'a val \<Rightarrow> string" where
  "fmt_v fmtv Nil = ''<nil>''"
| "fmt_v fmtv (String s) = s"
| "fmt_v fmtv (Strings xs) = ''['' @ Join xs '' '' @ '']''"
| "fmt_v fmtv (Other x) = fmtv x"

definition inFormat :: "('a \<Rightarrow> string) \<Rightarrow> string \<Rightarrow> 'a FuncRegistry \<Rightarrow> string" where
  "inFormat fmtv key fr =
     (case lookup fr key of
        Strings items \<Rightarrow> ''('' @ [sq] @ Join items ([sq] @ '', '' @ [sq]) @ [sq] @ '')''
      | v \<Rightarrow> ''('' @ [sq] @ fmt_v fmtv v @ [sq] @ '')'')"

definition unEscape :: "string \<Rightarrow> string" where
  "unEscape key = fst (QueryUnescape key)"

text \<open>
  \<open>split\<close> hands both arguments to \<open>strings.Split\<close>, here with any separator: the
  library function is the parameter \<open>strings_Split\<close>.
\<close>

definition split :: "(string \<Rightarrow> string \<Rightarrow> string list) \<Rightarrow> string \<Rightarrow> string \<Rightarrow> string list" where
  "split strings_Split orig sep = strings_Split orig sep"

definition LimitOffset :: "string \<Rightarrow> string \<Rightarrow> string \<times> error option" where
  "LimitOffset pageNumberStr pageSizeStr =
     (case Atoi pageNumberStr of
        (_, Some err) \<Rightarrow> ([], Some err)
      | (pageNumber, None) \<Rightarrow>
          (case Atoi pageSizeStr of
             (_, Some err) \<Rightarrow> ([], Some err)
           | (pageSize, None) \<Rightarrow>
               (let pageNumber = (if pageNumber - 1 <s 0 then 1 else pageNumber)
                in (''LIMIT '' @ fmt_d pageSize @ '' OFFSET('' @ fmt_d pageNumber @ '' - 1) * ''
                      @ fmt_d pageSize, None))))"

definition limitOffset :: "string \<Rightarrow> string \<Rightarrow> string" where
  "limitOffset pageNumber pageSize =
     (case LimitOffset pageNumber pageSize of
        (v, Some err) \<Rightarrow> []
      | (v, None) \<Rightarrow> v)"

definition sqlVal :: "string \<Rightarrow> 'a FuncRegistry \<Rightarrow> string \<times> 'a FuncRegistry" where
  "sqlVal key fr =
     (let v = lookup fr key;
          fr1 = fr\<lparr>Args := Args fr @ [v]\<rparr>;
          fr2 = fr1\<lparr>next' := next' fr1 + 1\<rparr>
      in (''$'' @ fmt_d (next' fr2), fr2))"

text \<open>The loop of \<open>sqlList\<close> over the elements; it returns the slice \<open>ph\<close>.\<close>

fun sqlList_loop :: "string list \<Rightarrow> 'a FuncRegistry \<Rightarrow> string list \<times> 'a FuncRegistry" where
  "sqlList_loop [] fr = ([], fr)"
| "sqlList_loop (x # xs) fr =
     (let fr1 = fr\<lparr>Args := Args fr @ [String x]\<rparr>;
          fr2 = fr1\<lparr>next' := next' fr1 + 1\<rparr>;
          p = ''$'' @ fmt_d (next' fr2);
          (ps, fr3) = sqlList_loop xs fr2
      in (p # ps, fr3))"

definition sqlList :: "string \<Rightarrow> 'a FuncRegistry \<Rightarrow> string \<times> 'a FuncRegistry" where
  "sqlList key fr =
     (case lookup fr key of
        Strings s \<Rightarrow>
          (let (ph, fr1) = sqlList_loop s fr in (''('' @ Join ph '','' @ '')'', fr1))
      | v \<Rightarrow>
          (let fr1 = fr\<lparr>Args := Args fr @ [v]\<rparr>;
               fr2 = fr1\<lparr>next' := next' fr1 + 1\<rparr>
           in (''($'' @ fmt_d (next' fr2) @ '')'', fr2)))"

text \<open>\<open>identRe\<close> is the pattern of package ident, written out a second time.\<close>

definition identRe :: regexp where
  "identRe = Seq (Seq (Class first_class) (Star (Class rest_class)))
               (Star (Seq (Lit (CHR ''.'')) (Seq (Class first_class) (Star (Class rest_class)))))"

definition ident :: "string \<Rightarrow> 'a FuncRegistry \<Rightarrow> string \<times> error option" where
  "ident key fr =
     (let s = (case lookup fr key of String s \<Rightarrow> s | _ \<Rightarrow> [])
      in if \<not> MatchString identRe s then ([], Some (invalid_identifier s))
         else (Join (map (\<lambda>p. [dq] @ p @ [dq]) (Split s (CHR ''.''))) ''.'', None))"

text \<open>
  One render is a sequence of calls. \<open>binding_call\<close> names the two calls that bind
  values, \<open>exec_binding\<close> runs one of them and \<open>render\<close> runs a sequence from left to
  right, collecting what the calls return.
\<close>

datatype binding_call = Call_sqlVal string | Call_sqlList string

fun exec_binding :: "binding_call \<Rightarrow> 'a FuncRegistry \<Rightarrow> string \<times> 'a FuncRegistry" where
  "exec_binding (Call_sqlVal key) fr = sqlVal key fr"
| "exec_binding (Call_sqlList key) fr = sqlList key fr"

fun render :: "binding_call list \<Rightarrow> 'a FuncRegistry \<Rightarrow> string list \<times> 'a FuncRegistry" where
  "render [] fr = ([], fr)"
| "render (c # cs) fr =
     (let (out, fr1) = exec_binding c fr;
          (outs, fr2) = render cs fr1
      in (out # outs, fr2))"

text \<open>
  To state what a call does: the values it binds, the token \<open>$n\<close> of the ordinal \<open>n\<close>,
  and the text a call makes of its tokens (\<open>sqlVal\<close> has one token and returns it,
  \<open>sqlList\<close> joins its tokens by commas between parentheses).
\<close>

fun bound_values :: "'a FuncRegistry \<Rightarrow> binding_call \<Rightarrow> 'a val list" where
  "bound_values fr (Call_sqlVal key) = [lookup fr key]"
| "bound_values fr (Call_sqlList key) =
     (case lookup fr key of Strings s \<Rightarrow> map String s | v \<Rightarrow> [v])"

definition placeholder :: "nat \<Rightarrow> string" where
  "placeholder n = ''$'' @ digits n"

fun call_text :: "binding_call \<Rightarrow> string list \<Rightarrow> string" where
  "call_text (Call_sqlVal key) tokens = concat tokens"
| "call_text (Call_sqlList key) tokens = ''('' @ Join tokens '','' @ '')''"

text \<open>
  All nine functions of the registry, as the template engine calls them; \<open>exec\<close> runs
  one and returns its result with the registry after the call.
\<close>

datatype call =
    Call_isSet string
  | Call_defaultOrValue string string
  | Call_inFormat string
  | Call_unEscape string
  | Call_split string string
  | Call_limitOffset string string
  | Call_binding binding_call
  | Call_ident string

datatype 'a result =
    Bool bool
  | Value "'a val"
  | Text string
  | TextList "string list"
  | TextOrError string "error option"

fun exec ::
  "('a \<Rightarrow> string) \<Rightarrow> (string \<Rightarrow> string \<Rightarrow> string list) \<Rightarrow> call \<Rightarrow> 'a FuncRegistry
     \<Rightarrow> 'a result \<times> 'a FuncRegistry" where
  "exec fmtv strings_Split (Call_isSet key) fr = (Bool (isSet key fr), fr)"
| "exec fmtv strings_Split (Call_defaultOrValue key defaultValue) fr =
     (case defaultOrValue key defaultValue fr of (v, fr1) \<Rightarrow> (Value v, fr1))"
| "exec fmtv strings_Split (Call_inFormat key) fr = (Text (inFormat fmtv key fr), fr)"
| "exec fmtv strings_Split (Call_unEscape key) fr = (Text (unEscape key), fr)"
| "exec fmtv strings_Split (Call_split orig sep) fr = (TextList (split strings_Split orig sep), fr)"
| "exec fmtv strings_Split (Call_limitOffset pageNumber pageSize) fr =
     (Text (limitOffset pageNumber pageSize), fr)"
| "exec fmtv strings_Split (Call_binding c) fr =
     (case exec_binding c fr of (s, fr1) \<Rightarrow> (Text s, fr1))"
| "exec fmtv strings_Split (Call_ident key) fr =
     (case ident key fr of (s, err) \<Rightarrow> (TextOrError s err, fr))"

text \<open>Template Data for examples: a scalar under \<open>id\<close>, two names under \<open>names\<close>.\<close>

definition demo_data :: "string \<rightharpoonup> nat val" where
  "demo_data = [''id'' \<mapsto> String ''7'', ''names'' \<mapsto> Strings [''a'', ''b'']]"

section \<open>Facts about the library functions\<close>

subsection \<open>Split and Join\<close>

lemma Split_nonempty: "Split s sep \<noteq> []"
  by (induction s) (auto split: list.splits)

lemma Join_Split: "Join (Split s sep) [sep] = s"
proof (induction s)
  case Nil
  then show ?case by simp
next
  case (Cons c cs)
  obtain p ps where ps: "Split cs sep = p # ps"
    using Split_nonempty[of cs sep] by (cases "Split cs sep") auto
  show ?case
  proof (cases "c = sep")
    case True
    with Cons ps show ?thesis by simp
  next
    case False
    with Cons ps show ?thesis by (cases ps) auto
  qed
qed

lemma Split_no_sep: "sep \<notin> set u \<Longrightarrow> Split u sep = [u]"
  by (induction u) auto

lemma Split_append_sep: "sep \<notin> set u \<Longrightarrow> Split (u @ sep # w) sep = u # Split w sep"
  by (induction u) auto

lemma Split_Join:
  "ps \<noteq> [] \<Longrightarrow> \<forall>p\<in>set ps. sep \<notin> set p \<Longrightarrow> Split (Join ps [sep]) sep = ps"
proof (induction ps "[sep]" rule: Join.induct)
  case 1
  then show ?case by simp
next
  case (2 x)
  then show ?case by (simp add: Split_no_sep)
next
  case (3 x y ys)
  then show ?case by (simp add: Split_append_sep)
qed

lemma set_Join: "set (Join ps sep) \<subseteq> \<Union> (set ` set ps) \<union> set sep"
  by (induction ps sep rule: Join.induct) auto

subsection \<open>MatchString decides membership in the language\<close>

lemma nullable_lang: "nullable r \<longleftrightarrow> [] \<in> lang r"
  by (induction r) (auto simp: conc_def intro: star.star_nil)

lemma conc_cons:
  "c # w \<in> conc A B \<longleftrightarrow>
     (\<exists>u v. w = u @ v \<and> c # u \<in> A \<and> v \<in> B) \<or> ([] \<in> A \<and> c # w \<in> B)"
  unfolding conc_def by (auto simp: Cons_eq_append_conv)

lemma star_cons_D:
  "x \<in> star A \<Longrightarrow> x = c # w \<Longrightarrow> \<exists>u v. w = u @ v \<and> c # u \<in> A \<and> v \<in> star A"
proof (induction rule: star.induct)
  case star_nil
  then show ?case by simp
next
  case (star_app u v)
  show ?case
  proof (cases u)
    case Nil
    with star_app show ?thesis by simp
  next
    case (Cons a u')
    with star_app show ?thesis by auto
  qed
qed

lemma star_cons: "c # w \<in> star A \<longleftrightarrow> (\<exists>u v. w = u @ v \<and> c # u \<in> A \<and> v \<in> star A)"
proof
  assume "c # w \<in> star A"
  then show "\<exists>u v. w = u @ v \<and> c # u \<in> A \<and> v \<in> star A"
    using star_cons_D by blast
next
  assume "\<exists>u v. w = u @ v \<and> c # u \<in> A \<and> v \<in> star A"
  then obtain u v where "w = u @ v" "c # u \<in> A" "v \<in> star A" by blast
  then show "c # w \<in> star A" using star.star_app[of "c # u" A v] by simp
qed

lemma deriv_lang: "w \<in> lang (deriv c r) \<longleftrightarrow> c # w \<in> lang r"
proof (induction r arbitrary: w)
  case (Seq r s)
  then show ?case by (auto simp: conc_cons nullable_lang) (auto simp: conc_def)
next
  case (Star r)
  then show ?case by (auto simp: star_cons) (auto simp: conc_def)
qed auto

lemma MatchString_lang: "MatchString r s \<longleftrightarrow> s \<in> lang r"
  by (induction s arbitrary: r) (auto simp: nullable_lang deriv_lang)

lemma star_Class: "w \<in> star (lang (Class rs)) \<longleftrightarrow> list_all (in_class rs) w"
proof
  assume "w \<in> star (lang (Class rs))"
  then show "list_all (in_class rs) w"
    by (induction rule: star.induct) auto
next
  assume "list_all (in_class rs) w"
  then show "w \<in> star (lang (Class rs))"
  proof (induction w)
    case Nil
    then show ?case by (simp add: star.star_nil)
  next
    case (Cons a w)
    then have "[a] \<in> lang (Class rs)" "w \<in> star (lang (Class rs))" by auto
    then have "[a] @ w \<in> star (lang (Class rs))" by (rule star.star_app)
    then show ?case by simp
  qed
qed

lemma lang_Star_Class: "w \<in> lang (Star (Class rs)) \<longleftrightarrow> list_all (in_class rs) w"
  using star_Class[of w rs] by simp

section \<open>Package ident: what the pattern accepts\<close>

lemma lang_segment_re: "p \<in> lang segment_re \<longleftrightarrow> seg_shape p"
proof -
  have "p \<in> lang segment_re \<longleftrightarrow>
        (\<exists>u v. p = u @ v \<and> u \<in> lang (Class first_class) \<and> v \<in> lang (Star (Class rest_class)))"
    by (auto simp: segment_re_def conc_def)
  also have "\<dots> \<longleftrightarrow> (\<exists>c v. p = c # v \<and> in_class first_class c \<and> list_all (in_class rest_class) v)"
    unfolding lang_Star_Class
  proof (intro iffI; elim exE conjE)
    fix u v assume "p = u @ v" "u \<in> lang (Class first_class)" "list_all (in_class rest_class) v"
    then show "\<exists>c v. p = c # v \<and> in_class first_class c \<and> list_all (in_class rest_class) v"
      by auto
  next
    fix c v assume "p = c # v" "in_class first_class c" "list_all (in_class rest_class) v"
    then have "p = [c] @ v \<and> [c] \<in> lang (Class first_class) \<and> list_all (in_class rest_class) v"
      by simp
    then show "\<exists>u v. p = u @ v \<and> u \<in> lang (Class first_class) \<and> list_all (in_class rest_class) v"
      by blast
  qed
  also have "\<dots> \<longleftrightarrow> seg_shape p"
    by (cases p) (auto simp: seg_shape_def)
  finally show ?thesis .
qed

lemma seg_match: "MatchString segment_re p \<longleftrightarrow> seg_shape p"
  by (simp add: MatchString_lang lang_segment_re)

lemma in_class_first_rest: "in_class first_class c \<Longrightarrow> in_class rest_class c"
  by (auto simp: in_class_def first_class_def rest_class_def)

lemma seg_shape_chars: "seg_shape p \<Longrightarrow> c \<in> set p \<Longrightarrow> in_class rest_class c"
  unfolding seg_shape_def
  by (auto split: list.splits simp: list_all_iff in_class_first_rest)

lemma not_in_rest_class:
  "\<not> in_class rest_class (CHR ''.'')" "\<not> in_class rest_class dq"
  by (simp_all add: in_class_def rest_class_def dq_def)

lemma seg_shape_no_dot: "seg_shape p \<Longrightarrow> CHR ''.'' \<notin> set p"
  using seg_shape_chars not_in_rest_class(1) by blast

lemma seg_shape_no_dq: "seg_shape p \<Longrightarrow> dq \<notin> set p"
  using seg_shape_chars not_in_rest_class(2) by blast

lemma lang_re: "lang re = conc (lang segment_re) dotted"
  by (simp add: re_def dotted_def conc_def)

lemma re_to_Split:
  assumes "v \<in> dotted"
  shows "seg_shape u \<Longrightarrow> list_all seg_shape (Split (u @ v) (CHR ''.''))"
  using assms unfolding dotted_def
proof (induction arbitrary: u rule: star.induct)
  case star_nil
  then show ?case by (simp add: Split_no_sep seg_shape_no_dot)
next
  case (star_app x v)
  from star_app.hyps(1) obtain u' where x: "x = CHR ''.'' # u'" and u': "seg_shape u'"
    by (auto simp: conc_def lang_segment_re)
  have "Split (u @ x @ v) (CHR ''.'') = u # Split (u' @ v) (CHR ''.'')"
    using x Split_append_sep[OF seg_shape_no_dot[OF star_app.prems]] by simp
  then show ?case using star_app.IH[OF u'] star_app.prems by simp
qed

lemma Join_to_re: "ps \<noteq> [] \<Longrightarrow> list_all seg_shape ps \<Longrightarrow> Join ps ''.'' \<in> lang re"
proof (induction ps "''.''" rule: Join.induct)
  case 1
  then show ?case by simp
next
  case (2 x)
  then have "x \<in> lang segment_re" by (simp add: lang_segment_re)
  moreover have "[] \<in> dotted" unfolding dotted_def by (rule star.star_nil)
  ultimately have "x @ [] \<in> conc (lang segment_re) dotted"
    unfolding conc_def by blast
  then show ?case by (simp add: lang_re)
next
  case (3 x y ys)
  then have "Join (y # ys) ''.'' \<in> lang re" by simp
  then obtain u v where uv: "Join (y # ys) ''.'' = u @ v" "u \<in> lang segment_re" "v \<in> dotted"
    by (auto simp: lang_re conc_def)
  have "[CHR ''.''] @ u \<in> conc {[CHR ''.'']} (lang segment_re)"
    unfolding conc_def using uv(2) by blast
  then have "([CHR ''.''] @ u) @ v \<in> dotted"
    unfolding dotted_def using uv(3) star.star_app dotted_def by blast
  moreover have "x \<in> lang segment_re" using 3 by (simp add: lang_segment_re)
  ultimately have "x @ (([CHR ''.''] @ u) @ v) \<in> conc (lang segment_re) dotted"
    unfolding conc_def by blast
  then show ?case using uv(1) by (simp add: lang_re)
qed

lemma MatchString_re: "MatchString re s \<longleftrightarrow> list_all seg_shape (Split s (CHR ''.''))"
proof
  assume "MatchString re s"
  then obtain u v where "s = u @ v" "seg_shape u" "v \<in> dotted"
    by (auto simp: MatchString_lang lang_re conc_def lang_segment_re)
  then show "list_all seg_shape (Split s (CHR ''.''))" using re_to_Split by blast
next
  assume "list_all seg_shape (Split s (CHR ''.''))"
  then have "Join (Split s (CHR ''.'')) ''.'' \<in> lang re"
    using Join_to_re Split_nonempty by blast
  then show "MatchString re s" by (simp add: Join_Split MatchString_lang)
qed

lemma parts_len_ok_iff: "parts_len_ok ps \<longleftrightarrow> list_all (\<lambda>p. p \<noteq> [] \<and> length p \<le> 63) ps"
  by (induction ps) auto

lemmas eval_re = IsValid_def re_def segment_re_def in_class_def first_class_def rest_class_def

text \<open>The classes of the pattern are the bytes of the description.\<close>

lemma in_first_class: "in_class first_class c \<longleftrightarrow> ident_start c"
  by (auto simp: in_class_def first_class_def ident_start_def Let_def)

lemma in_rest_class: "in_class rest_class c \<longleftrightarrow> ident_char c"
  by (auto simp: in_class_def rest_class_def ident_char_def Let_def)

lemma seg_shape_identifier_shape: "seg_shape p \<longleftrightarrow> identifier_shape p"
  by (cases p) (simp_all add: seg_shape_def identifier_shape_def list_all_iff in_first_class in_rest_class)

lemma Split_replicate_a: "Split (replicate n (CHR ''a'')) (CHR ''.'') = [replicate n (CHR ''a'')]"
  by (simp add: Split_no_sep)

lemma identifier_shape_replicate_a: "identifier_shape (replicate (Suc n) (CHR ''a''))"
  by (simp add: identifier_shape_def ident_start_def ident_char_def list_all_iff Let_def)

lemmas eval_shape = identifier_shape_def ident_start_def ident_char_def Let_def

text \<open>
  C1. For every string \<open>s\<close>, \<open>IsValid s\<close> holds exactly when splitting \<open>s\<close> on the
  dot gives at least one segment and every segment is non-empty, at most 63 bytes long and
  of the shape \<open>[A-Za-z_][A-Za-z0-9_]*\<close>: a letter or underscore first, then letters,
  digits and underscores. (A segment of that shape holds ASCII bytes only, so its bytes
  are its characters.) Said without splitting: \<open>s\<close> is valid exactly when it is one or
  more such segments with a dot between each two.
\<close>

theorem IsValid_iff_segments:
  "(IsValid s \<longleftrightarrow>
      (let segs = Split s (CHR ''.'') in
         segs \<noteq> [] \<and>
         (\<forall>seg \<in> set segs. seg \<noteq> [] \<and> length seg \<le> 63 \<and> identifier_shape seg))) \<and>
   (IsValid s \<longleftrightarrow>
      (\<exists>segs. segs \<noteq> [] \<and> s = Join segs ''.'' \<and>
         (\<forall>seg \<in> set segs. seg \<noteq> [] \<and> length seg \<le> 63 \<and> identifier_shape seg)))"
proof -
  let ?ok = "\<lambda>seg. seg \<noteq> [] \<and> length seg \<le> 63 \<and> identifier_shape seg"
  have by_split: "IsValid s \<longleftrightarrow> (\<forall>seg \<in> set (Split s (CHR ''.'')). ?ok seg)"
    by (auto simp: IsValid_def MatchString_re parts_len_ok_iff list_all_iff
          seg_shape_identifier_shape)
  have by_join: "IsValid s \<longleftrightarrow> (\<exists>segs. segs \<noteq> [] \<and> s = Join segs ''.'' \<and> (\<forall>seg \<in> set segs. ?ok seg))"
  proof
    assume "IsValid s"
    then have "Split s (CHR ''.'') \<noteq> [] \<and> s = Join (Split s (CHR ''.'')) ''.'' \<and>
        (\<forall>seg \<in> set (Split s (CHR ''.'')). ?ok seg)"
      using by_split by (simp add: Split_nonempty Join_Split)
    then show "\<exists>segs. segs \<noteq> [] \<and> s = Join segs ''.'' \<and> (\<forall>seg \<in> set segs. ?ok seg)"
      by blast
  next
    assume "\<exists>segs. segs \<noteq> [] \<and> s = Join segs ''.'' \<and> (\<forall>seg \<in> set segs. ?ok seg)"
    then obtain segs where segs: "segs \<noteq> []" "s = Join segs ''.''" "\<forall>seg \<in> set segs. ?ok seg"
      by blast
    have "\<forall>seg \<in> set segs. CHR ''.'' \<notin> set seg"
      using segs(3) seg_shape_no_dot seg_shape_identifier_shape by blast
    then have "Split s (CHR ''.'') = segs"
      using segs(1,2) Split_Join[of segs "CHR ''.''"] by simp
    then show "IsValid s" using by_split segs(3) by simp
  qed
  show ?thesis using by_split by_join by (simp add: Split_nonempty)
qed

theorem IsValid_iff_segments_witness:
  "IsValid ''schema.table'' \<and> IsValid ''_foo123'' \<and>
   \<not> IsValid ''foo-bar'' \<and> \<not> IsValid ''table;DROP TABLE users;--'' \<and> \<not> IsValid ''123abc'' \<and>
   \<not> IsValid ''foo..bar'' \<and> \<not> IsValid ''.foo'' \<and> \<not> IsValid ''foo.'' \<and> \<not> IsValid [] \<and>
   IsValid (replicate 63 (CHR ''a'')) \<and> \<not> IsValid (replicate 64 (CHR ''a'')) \<and>
   \<not> IsValid (''foo.'' @ replicate 64 (CHR ''a''))"
proof -
  note by_split = IsValid_iff_segments[THEN conjunct1]
  have a: "IsValid ''schema.table''" "IsValid ''_foo123''"
    by (simp_all add: by_split eval_shape)
  have b: "\<not> IsValid ''foo-bar''" "\<not> IsValid ''table;DROP TABLE users;--''" "\<not> IsValid ''123abc''"
    by (simp_all add: by_split eval_shape)
  have c: "\<not> IsValid ''foo..bar''" "\<not> IsValid ''.foo''" "\<not> IsValid ''foo.''" "\<not> IsValid []"
    by (simp_all add: by_split eval_shape)
  have d: "IsValid (replicate 63 (CHR ''a''))"
    using identifier_shape_replicate_a[of 62] by (simp add: by_split Split_replicate_a)
  have e: "\<not> IsValid (replicate 64 (CHR ''a''))"
    by (simp add: by_split Split_replicate_a)
  have f: "\<not> IsValid (''foo.'' @ replicate 64 (CHR ''a''))"
    by (simp add: by_split Split_replicate_a)
  show ?thesis using a b c d e f by simp
qed

section \<open>Package ident: Quote and SplitAndValidateCSV\<close>

lemma IsValid_segments: "IsValid s \<Longrightarrow> list_all seg_shape (Split s (CHR ''.''))"
  by (simp add: IsValid_def MatchString_re split: if_splits)

lemma ReplaceAll_absent: "old \<notin> set p \<Longrightarrow> ReplaceAll p old new = p"
  by (induction p) auto

lemma quote_part_plain: "seg_shape p \<Longrightarrow> quote_part p = [dq] @ p @ [dq]"
  by (simp add: quote_part_def ReplaceAll_absent seg_shape_no_dq)

lemma filter_absent: "a \<notin> set x \<Longrightarrow> filter (\<lambda>c. c \<noteq> a) x = x"
  by (induction x) auto

lemma unquote_part: "seg_shape p \<Longrightarrow> filter (\<lambda>c. c \<noteq> dq) (quote_part p) = p"
  by (simp add: quote_part_plain filter_absent seg_shape_no_dq)

lemma unquote_Join:
  "list_all seg_shape ps \<Longrightarrow>
   filter (\<lambda>c. c \<noteq> dq) (Join (map quote_part ps) ''.'') = Join ps ''.''"
proof (induction ps "''.''" rule: Join.induct)
  case 1
  then show ?case by simp
next
  case (2 x)
  then show ?case by (simp add: unquote_part)
next
  case (3 x y ys)
  then have "filter (\<lambda>c. c \<noteq> dq) (quote_part x) = x"
    by (simp add: unquote_part)
  with 3 show ?case by (simp add: dq_def)
qed

text \<open>Taking the double quotes out of what \<open>Quote\<close> returns gives the input back.\<close>

lemma unquote_Quote: "IsValid s \<Longrightarrow> filter (\<lambda>c. c \<noteq> dq) (fst (Quote s)) = s"
  using unquote_Join[OF IsValid_segments, of s] Join_Split[of s "CHR ''.''"]
  by (simp add: Quote_def)

lemmas eval_quote = Quote_def quote_part_def invalid_identifier_def dq_def

text \<open>
  C2. \<open>Quote s\<close> succeeds exactly when \<open>IsValid s\<close>. When it fails it returns the empty
  string and the error \<open>invalid identifier: s\<close>. When it succeeds it returns the
  segments of \<open>s\<close>, each between double quotes with its own double quotes doubled,
  joined by dots. Two different valid inputs give two different results.
\<close>

theorem Quote_spec:
  "(snd (Quote s) = None \<longleftrightarrow> IsValid s) \<and>
   (\<not> IsValid s \<longrightarrow> Quote s = ([], Some (Errorf (''invalid identifier: '' @ s)))) \<and>
   (IsValid s \<longrightarrow>
      Quote s =
        (Join (map (\<lambda>p. [dq] @ ReplaceAll p dq [dq, dq] @ [dq]) (Split s (CHR ''.''))) ''.'', None)) \<and>
   (IsValid s \<and> IsValid s' \<and> s \<noteq> s' \<longrightarrow> fst (Quote s) \<noteq> fst (Quote s'))"
proof -
  have "fst (Quote s) \<noteq> fst (Quote s')" if "IsValid s" "IsValid s'" "s \<noteq> s'"
    using that unquote_Quote[of s] unquote_Quote[of s'] by metis
  moreover have "map quote_part = map (\<lambda>p. [dq] @ ReplaceAll p dq [dq, dq] @ [dq])"
    by (simp add: quote_part_def fun_eq_iff)
  ultimately show ?thesis
    by (simp add: Quote_def invalid_identifier_def)
qed

theorem Quote_spec_witness:
  "IsValid ''schema.table'' \<and> IsValid ''a.b'' \<and> \<not> IsValid ''table;DROP TABLE users;--'' \<and>
   Quote ''schema.table'' = ([dq] @ ''schema'' @ [dq] @ ''.'' @ [dq] @ ''table'' @ [dq], None) \<and>
   Quote ''table;DROP TABLE users;--'' =
     ([], Some (Errorf ''invalid identifier: table;DROP TABLE users;--'')) \<and>
   fst (Quote ''schema.table'') \<noteq> fst (Quote ''a.b'')"
proof -
  have v1: "IsValid ''schema.table''" and v2: "IsValid ''a.b''"
    and v3: "\<not> IsValid ''table;DROP TABLE users;--''"
    by (simp_all add: eval_re)
  have "Quote ''schema.table'' = ([dq] @ ''schema'' @ [dq] @ ''.'' @ [dq] @ ''table'' @ [dq], None)"
    using Quote_spec[of "''schema.table''"] v1 by (simp add: dq_def)
  moreover have "Quote ''table;DROP TABLE users;--'' =
     ([], Some (Errorf ''invalid identifier: table;DROP TABLE users;--''))"
    using Quote_spec[of "''table;DROP TABLE users;--''"] v3 by simp
  moreover have "fst (Quote ''schema.table'') \<noteq> fst (Quote ''a.b'')"
    using Quote_spec[of "''schema.table''" "''a.b''"] v1 v2 by blast
  ultimately show ?thesis using v1 v2 v3 by simp
qed

lemma csv_loop_valid: "list_all IsValid ps \<Longrightarrow> csv_loop ps parts = (parts, None)"
  by (induction ps) auto

lemma csv_loop_invalid:
  "\<not> list_all IsValid ps \<Longrightarrow>
   \<exists>pre p post. ps = pre @ p # post \<and> list_all IsValid pre \<and> \<not> IsValid p \<and>
      csv_loop ps parts = ([], Some (invalid_identifier p))"
proof (induction ps)
  case Nil
  then show ?case by simp
next
  case (Cons a ps)
  show ?case
  proof (cases "IsValid a")
    case False
    then have "a # ps = [] @ a # ps \<and> list_all IsValid [] \<and> \<not> IsValid a \<and>
        csv_loop (a # ps) parts = ([], Some (invalid_identifier a))"
      by simp
    then show ?thesis by blast
  next
    case True
    with Cons obtain pre p post where
      h: "ps = pre @ p # post" "list_all IsValid pre" "\<not> IsValid p"
         "csv_loop ps parts = ([], Some (invalid_identifier p))"
      by auto
    with True have "a # ps = (a # pre) @ p # post \<and> list_all IsValid (a # pre) \<and> \<not> IsValid p \<and>
        csv_loop (a # ps) parts = ([], Some (invalid_identifier p))"
      by simp
    then show ?thesis by blast
  qed
qed

text \<open>
  C5. \<open>SplitAndValidateCSV\<close> of the empty string is the empty result and no error. Of
  any other string: when every piece between commas is valid, it is those pieces and no
  error; otherwise it is the empty result and the error \<open>invalid identifier: p\<close> for the
  first invalid piece \<open>p\<close> (the pieces before \<open>p\<close> are all valid).
\<close>

theorem SplitAndValidateCSV_spec:
  "SplitAndValidateCSV [] = ([], None) \<and>
   (s \<noteq> [] \<and> list_all IsValid (Split s (CHR '','')) \<longrightarrow>
      SplitAndValidateCSV s = (Split s (CHR '',''), None)) \<and>
   (s \<noteq> [] \<and> \<not> list_all IsValid (Split s (CHR '','')) \<longrightarrow>
      (\<exists>pre p post. Split s (CHR '','') = pre @ p # post \<and> list_all IsValid pre \<and> \<not> IsValid p \<and>
         SplitAndValidateCSV s = ([], Some (Errorf (''invalid identifier: '' @ p)))))"
proof -
  have empty: "SplitAndValidateCSV [] = ([], None)"
    by (simp add: SplitAndValidateCSV_def)
  have valid: "SplitAndValidateCSV s = (Split s (CHR '',''), None)"
    if "s \<noteq> []" "list_all IsValid (Split s (CHR '',''))"
    using that by (simp add: SplitAndValidateCSV_def csv_loop_valid Let_def)
  have invalid: "\<exists>pre p post. Split s (CHR '','') = pre @ p # post \<and> list_all IsValid pre \<and>
      \<not> IsValid p \<and> SplitAndValidateCSV s = ([], Some (Errorf (''invalid identifier: '' @ p)))"
    if "s \<noteq> []" "\<not> list_all IsValid (Split s (CHR '',''))"
    using that csv_loop_invalid[of "Split s (CHR '','')" "Split s (CHR '','')"]
    by (simp add: SplitAndValidateCSV_def invalid_identifier_def Let_def)
  show ?thesis using empty valid invalid by blast
qed

theorem SplitAndValidateCSV_spec_witness:
  "SplitAndValidateCSV ''table1,table2'' = ([''table1'', ''table2''], None) \<and>
   IsValid ''table1'' \<and> IsValid ''table2'' \<and> \<not> IsValid ''bar;DROP'' \<and>
   (\<exists>pre p post. Split ''foo,bar;DROP,1x'' (CHR '','') = pre @ p # post \<and> list_all IsValid pre \<and>
      \<not> IsValid p \<and>
      SplitAndValidateCSV ''foo,bar;DROP,1x'' = ([], Some (Errorf (''invalid identifier: '' @ p))))"
proof -
  have v: "IsValid ''table1''" "IsValid ''table2''" "\<not> IsValid ''bar;DROP''"
    by (simp_all add: eval_re)
  have "SplitAndValidateCSV ''table1,table2'' = ([''table1'', ''table2''], None)"
    using SplitAndValidateCSV_spec[of "''table1,table2''"] v by simp
  moreover have "\<not> list_all IsValid (Split ''foo,bar;DROP,1x'' (CHR '',''))"
    using v by simp
  then have "\<exists>pre p post. Split ''foo,bar;DROP,1x'' (CHR '','') = pre @ p # post \<and>
      list_all IsValid pre \<and> \<not> IsValid p \<and>
      SplitAndValidateCSV ''foo,bar;DROP,1x'' = ([], Some (Errorf (''invalid identifier: '' @ p)))"
    using SplitAndValidateCSV_spec[of "''foo,bar;DROP,1x''"] by simp
  ultimately show ?thesis using v by simp
qed

section \<open>Package template: ident\<close>

lemma identRe_re: "identRe = re"
  by (simp add: identRe_def re_def segment_re_def)

lemma MatchString_identRe: "MatchString identRe s \<longleftrightarrow> list_all seg_shape (Split s (CHR ''.''))"
  by (simp add: identRe_re MatchString_re)

text \<open>What \<open>ident\<close> returns for a string value: only the pattern decides.\<close>

lemma ident_String:
  "lookup fr key = String s \<Longrightarrow>
   ident key fr =
     (if list_all seg_shape (Split s (CHR ''.''))
      then (Join (map (\<lambda>p. [dq] @ p @ [dq]) (Split s (CHR ''.''))) ''.'', None)
      else ([], Some (invalid_identifier s)))"
  by (simp add: ident_def MatchString_identRe)

text \<open>Wherever \<open>Quote\<close> succeeds, \<open>ident\<close> succeeds with the same result.\<close>

lemma ident_eq_Quote_on_valid:
  assumes "lookup fr key = String s" "IsValid s"
  shows "ident key fr = Quote s"
proof -
  have segs: "list_all seg_shape (Split s (CHR ''.''))"
    using assms(2) by (rule IsValid_segments)
  then have same: "map quote_part (Split s (CHR ''.'')) = map (\<lambda>p. [dq] @ p @ [dq]) (Split s (CHR ''.''))"
    by (simp add: list_all_iff quote_part_plain)
  have "ident key fr = (Join (map (\<lambda>p. [dq] @ p @ [dq]) (Split s (CHR ''.''))) ''.'', None)"
    using assms(1) segs by (simp add: ident_String)
  also have "\<dots> = Quote s"
    using assms(2) unfolding Quote_def same by simp
  finally show ?thesis .
qed

lemma seg_shape_replicate_a: "seg_shape (replicate (Suc n) (CHR ''a''))"
  by (simp add: seg_shape_def list_all_iff in_class_def first_class_def rest_class_def)

text \<open>
  C4 fails on the code. \<open>ident\<close> checks the pattern and nothing else, \<open>Quote\<close> also
  bounds every segment by 63 bytes: for a value of 64 letters \<open>a\<close>, \<open>ident\<close> returns the
  quoted string and no error, and \<open>Quote\<close> returns the error.
\<close>

theorem ident_accepts_what_Quote_rejects:
  "ident ''t'' (fresh [''t'' \<mapsto> String (replicate 64 (CHR ''a''))]) =
     ([dq] @ replicate 64 (CHR ''a'') @ [dq], None) \<and>
   Quote (replicate 64 (CHR ''a'')) =
     ([], Some (Errorf (''invalid identifier: '' @ replicate 64 (CHR ''a''))))"
proof -
  let ?s = "replicate 64 (CHR ''a'')"
  have shape: "list_all seg_shape (Split ?s (CHR ''.''))"
    using seg_shape_replicate_a[of 63] by (simp add: Split_replicate_a)
  have "lookup (fresh [''t'' \<mapsto> String ?s]) ''t'' = String ?s"
    by (simp add: lookup_def fresh_def)
  from ident_String[OF this]
  have "ident ''t'' (fresh [''t'' \<mapsto> String ?s]) = ([dq] @ ?s @ [dq], None)"
    using shape by (simp add: Split_replicate_a)
  moreover have "\<not> IsValid ?s"
    by (simp add: IsValid_def Split_replicate_a)
  then have "Quote ?s = ([], Some (Errorf (''invalid identifier: '' @ ?s)))"
    by (simp add: Quote_def invalid_identifier_def)
  ultimately show ?thesis by simp
qed

text \<open>
  C10. When the key is absent from Template Data, or its value is not a string,
  \<open>ident\<close> returns the empty string and the error \<open>invalid identifier: \<close> (the
  rejected string is the empty one).
\<close>

theorem ident_missing_or_not_string:
  assumes "TemplateData fr key = None \<or>
           (\<exists>v. TemplateData fr key = Some v \<and> (\<forall>s. v \<noteq> String s))"
  shows "ident key fr = ([], Some (Errorf ''invalid identifier: ''))"
proof -
  have "(case lookup fr key of String s \<Rightarrow> s | _ \<Rightarrow> []) = []"
    using assms by (auto simp: lookup_def split: val.splits)
  moreover have "\<not> MatchString identRe []"
    by (simp add: identRe_def)
  ultimately show ?thesis
    by (simp add: ident_def invalid_identifier_def)
qed

theorem ident_missing_or_not_string_witness:
  "ident ''t'' (fresh (Map.empty :: string \<rightharpoonup> nat val)) = ([], Some (Errorf ''invalid identifier: '')) \<and>
   ident ''t'' (fresh [''t'' \<mapsto> (Strings [''a''] :: nat val)]) =
     ([], Some (Errorf ''invalid identifier: '')) \<and>
   ident ''t'' (fresh [''t'' \<mapsto> Other (7 :: nat)]) = ([], Some (Errorf ''invalid identifier: ''))"
proof -
  have "ident ''t'' (fresh (Map.empty :: string \<rightharpoonup> nat val)) =
          ([], Some (Errorf ''invalid identifier: ''))"
    by (rule ident_missing_or_not_string) (simp add: fresh_def)
  moreover have "ident ''t'' (fresh [''t'' \<mapsto> (Strings [''a''] :: nat val)]) =
          ([], Some (Errorf ''invalid identifier: ''))"
    by (rule ident_missing_or_not_string) (simp add: fresh_def)
  moreover have "ident ''t'' (fresh [''t'' \<mapsto> Other (7 :: nat)]) =
          ([], Some (Errorf ''invalid identifier: ''))"
    by (rule ident_missing_or_not_string) (simp add: fresh_def)
  ultimately show ?thesis by simp
qed

section \<open>Package template: limitOffset\<close>

lemmas eval_atoi = Atoi_def atoi_fast_def ParseInt_def ParseUint_def uint_cutoff_def

lemmas eval_fmt = fmt_d_def digits.simps digit_char_def

lemma sint_minus_one:
  fixes pn :: go_int
  assumes "pn \<noteq> - (2 ^ 63)"
  shows "sint (pn - 1) = sint pn - 1"
proof -
  have lo: "- (2 ^ 63) \<le> sint pn" using sint_ge[of pn] by simp
  have hi: "sint pn < 2 ^ 63" using sint_lt[of pn] by simp
  have "sint pn \<noteq> - (2 ^ 63)"
  proof
    assume "sint pn = - (2 ^ 63)"
    then have "word_of_int (sint pn) = (word_of_int (- (2 ^ 63)) :: go_int)" by simp
    then have "pn = - (2 ^ 63)" by simp
    with assms show False by simp
  qed
  with lo have "- (2 ^ 63) \<le> sint pn - 1" by linarith
  moreover from hi have "sint pn - 1 < 2 ^ 63" by linarith
  ultimately have "signed_take_bit 63 (sint pn - 1) = sint pn - 1"
    by (simp add: signed_take_bit_int_eq_self)
  then show ?thesis by (simp add: sint_word_ariths)
qed

text \<open>The test \<open>pageNumber-1 < 0\<close> misses the least \<open>int\<close>, where the subtraction wraps.\<close>

lemma page_number_test:
  "(pn :: go_int) - 1 <s 0 \<longleftrightarrow> sint pn \<le> 0 \<and> pn \<noteq> - (2 ^ 63)"
proof (cases "pn = - (2 ^ 63)")
  case True
  then show ?thesis by (simp add: word_sless_alt)
next
  case False
  have "pn - 1 <s 0 \<longleftrightarrow> sint pn - 1 < 0"
    using sint_minus_one[OF False] by (simp add: word_sless_alt)
  also have "\<dots> \<longleftrightarrow> sint pn \<le> 0" by linarith
  finally show ?thesis using False by simp
qed

text \<open>
  When either argument does not parse, \<open>LimitOffset\<close> returns the empty text and the
  error, and the wrapper \<open>limitOffset\<close> the empty string.
\<close>

lemma LimitOffset_parse_error:
  assumes "snd (Atoi a) \<noteq> None \<or> snd (Atoi b) \<noteq> None"
  shows "fst (LimitOffset a b) = [] \<and> snd (LimitOffset a b) \<noteq> None \<and> limitOffset a b = []"
  using assms
  by (cases "Atoi a"; cases "Atoi b")
     (auto simp: LimitOffset_def limitOffset_def split: option.splits)

text \<open>
  When both parse, the text is built from the page size and the page number, and a page
  number \<open>\<le> 0\<close> other than the least \<open>int\<close> is replaced by 1.
\<close>

lemma LimitOffset_parsed:
  assumes "Atoi a = (pn, None)" "Atoi b = (ps, None)"
  shows "LimitOffset a b =
           (''LIMIT '' @ fmt_d ps @ '' OFFSET(''
              @ fmt_d (if sint pn \<le> 0 \<and> pn \<noteq> - (2 ^ 63) then 1 else pn)
              @ '' - 1) * '' @ fmt_d ps, None)"
  using assms by (simp add: LimitOffset_def page_number_test)

lemma LimitOffset_zero_ten: "LimitOffset ''0'' ''10'' = (''LIMIT 10 OFFSET(1 - 1) * 10'', None)"
  by (simp add: LimitOffset_def eval_atoi eval_fmt)

text \<open>
  C8 fails on the code at one page number. \<open>-9223372036854775808\<close> parses (it is the
  least \<open>int\<close>) and is \<open>\<le> 0\<close>, yet it is not replaced by 1: \<open>pageNumber-1\<close> wraps around to
  the greatest \<open>int\<close>, which is not below 0.
\<close>

theorem LimitOffset_least_page_number:
  "Atoi ''-9223372036854775808'' = (- (2 ^ 63), None) \<and>
   sint (- (2 ^ 63) :: go_int) \<le> 0 \<and>
   LimitOffset ''-9223372036854775808'' ''10'' =
     (''LIMIT 10 OFFSET(-9223372036854775808 - 1) * 10'', None)"
proof -
  have "Atoi ''-9223372036854775808'' = (- (2 ^ 63), None)"
    by (simp add: eval_atoi)
  moreover have "sint (- (2 ^ 63) :: go_int) \<le> 0"
    by simp
  moreover have "LimitOffset ''-9223372036854775808'' ''10'' =
      (''LIMIT 10 OFFSET(-9223372036854775808 - 1) * 10'', None)"
    by (simp add: LimitOffset_def eval_atoi eval_fmt word_sless_alt)
  ultimately show ?thesis by simp
qed

section \<open>Package ident: IsSafeSegment\<close>

lemma all_safe_iff: "all_safe U rs \<longleftrightarrow> list_all (safe_rune U) rs"
  by (induction rs) auto

lemma DecodeRune_ascii: "b < 0x80 \<Longrightarrow> DecodeRune (b # bs) = (b, 1)"
  by simp

text \<open>A sequence of more than one byte holds no ASCII byte.\<close>

lemma DecodeRune_consumed:
  assumes "DecodeRune (b0 # bs) = (r, n)"
  shows "(n = 1 \<and> (b0 < 0x80 \<longrightarrow> r = b0)) \<or>
         (1 < n \<and> (\<forall>x \<in> set (take n (b0 # bs)). 0x80 \<le> x))"
proof (cases "b0 < 0x80")
  case True
  with assms show ?thesis by simp
next
  case False
  show ?thesis
  proof (cases "n = 1")
    case True
    with False show ?thesis by simp
  next
    case n1: False
    consider (two) "0xC2 \<le> b0 \<and> b0 \<le> 0xDF"
      | (three) "0xE0 \<le> b0 \<and> b0 \<le> 0xEF"
      | (four) "0xF0 \<le> b0 \<and> b0 \<le> 0xF4"
      | (none) "\<not> (0xC2 \<le> b0 \<and> b0 \<le> 0xDF) \<and> \<not> (0xE0 \<le> b0 \<and> b0 \<le> 0xEF) \<and> \<not> (0xF0 \<le> b0 \<and> b0 \<le> 0xF4)"
      by linarith
    then show ?thesis
    proof cases
      case two
      with assms False n1 show ?thesis
        by (auto simp: cont_byte_def split: list.splits if_splits)
    next
      case three
      with assms False n1 show ?thesis
        by (auto simp: cont_byte_def second_lo_def split: list.splits if_splits)
    next
      case four
      with assms False n1 show ?thesis
        by (auto simp: cont_byte_def second_lo_def split: list.splits if_splits)
    next
      case none
      with assms False n1 show ?thesis by simp
    qed
  qed
qed

lemma decode_all_ascii: "list_all (\<lambda>b. b < 0x80) bs \<Longrightarrow> decode_all bs = bs"
  by (induction bs) (simp_all add: decode_all.simps(2))

text \<open>Every ASCII byte of a string is one of its code points, whatever surrounds it.\<close>

lemma ascii_byte_is_rune: "b \<in> set bs \<Longrightarrow> b < 0x80 \<Longrightarrow> b \<in> set (decode_all bs)"
proof (induction bs rule: decode_all.induct)
  case 1
  then show ?case by simp
next
  case (2 b0 bs)
  obtain r n where d: "DecodeRune (b0 # bs) = (r, n)" by (cases "DecodeRune (b0 # bs)")
  have unfold: "decode_all (b0 # bs) = r # decode_all (drop n (b0 # bs))"
    using d by (simp add: decode_all.simps(2))
  have "b \<in> set (take n (b0 # bs)) \<or> b \<in> set (drop n (b0 # bs))"
    using "2.prems"(1) by (metis Un_iff append_take_drop_id set_append)
  then show ?case
  proof
    assume taken: "b \<in> set (take n (b0 # bs))"
    from DecodeRune_consumed[OF d] show ?thesis
    proof
      assume "n = 1 \<and> (b0 < 0x80 \<longrightarrow> r = b0)"
      with taken "2.prems"(2) show ?thesis by (simp add: unfold)
    next
      assume "1 < n \<and> (\<forall>x \<in> set (take n (b0 # bs)). 0x80 \<le> x)"
      with taken "2.prems"(2) show ?thesis by fastforce
    qed
  next
    assume "b \<in> set (drop n (b0 # bs))"
    then have "b \<in> set (decode_all (drop n (b0 # bs)))"
      using "2.IH" "2.prems"(2) d by simp
    then show ?thesis by (simp add: unfold)
  qed
qed

text \<open>The code's test on a code point is the description's.\<close>

lemma safe_rune_iff: "safe_rune U r \<longleftrightarrow> safe_code_point U r"
proof (cases "r \<le> 0xFF")
  case True
  then show ?thesis
    by (auto simp: safe_rune_def IsLetter_def IsDigit_def latin1_letter_def safe_code_point_def)
next
  case False
  then show ?thesis
    by (auto simp: safe_rune_def IsLetter_def IsDigit_def safe_code_point_def)
qed

lemma ascii_safe_code_point:
  "(of_char c :: nat) < 0x80 \<Longrightarrow> safe_code_point U (of_char c) \<longleftrightarrow> ascii_safe_char c"
  by (auto simp: safe_code_point_def ascii_safe_char_def Let_def)

lemma runes_ascii: "list_all (\<lambda>c. (of_char c :: nat) < 0x80) s \<Longrightarrow> runes s = map of_char s"
  unfolding runes_def
  by (rule decode_all_ascii) (simp add: list_all_iff)

lemma space_not_safe:
  "unicode_space r \<Longrightarrow> (0xFF < r \<longrightarrow> \<not> Letter U r \<and> \<not> Digit U r) \<Longrightarrow> \<not> safe_code_point U r"
  by (auto simp: unicode_space_def safe_code_point_def)

lemma decode_e_acute: "decode_all (concat (replicate n [0xC3, 0xA9])) = replicate n 0xE9"
  by (induction n) (simp_all add: decode_all.simps(2) cont_byte_def)

lemma length_concat_pairs: "length (concat (replicate n [a, b])) = 2 * n"
  by (induction n) simp_all

lemma runes_e_acute_32: "runes e_acute_32 = replicate 32 0xE9"
proof -
  have "map of_char e_acute_32 = concat (replicate 32 [0xC3, 0xA9 :: nat])"
    by (simp add: e_acute_32_def map_concat)
  then show ?thesis by (simp add: runes_def decode_e_acute)
qed

text \<open>
  C6 as stated fails on the code: the bound of 63 is on bytes, not on characters. The
  string of 32 letters U+00E9 is not empty, has 32 characters, each of them a letter, and
  is rejected, because it is 64 bytes long. (The letter is below U+0100, so the range
  tables play no part.)
\<close>

theorem IsSafeSegment_not_by_characters:
  "\<not> (IsSafeSegment latin1_tables e_acute_32 \<longleftrightarrow>
        (e_acute_32 \<noteq> [] \<and> length (runes e_acute_32) \<le> 63 \<and>
         list_all (safe_code_point latin1_tables) (runes e_acute_32)))"
proof -
  have "length e_acute_32 = 64"
    by (simp add: e_acute_32_def length_concat_pairs)
  then have "\<not> IsSafeSegment latin1_tables e_acute_32"
    by (simp add: IsSafeSegment_def)
  moreover have "e_acute_32 \<noteq> []"
    by (simp add: e_acute_32_def)
  moreover have "safe_code_point latin1_tables 0xE9"
    by (simp add: safe_code_point_def)
  then have "list_all (safe_code_point latin1_tables) (runes e_acute_32)"
    by (simp add: runes_e_acute_32 list_all_iff)
  moreover have "length (runes e_acute_32) \<le> 63"
    by (simp add: runes_e_acute_32)
  ultimately show ?thesis by blast
qed

lemmas eval_runes = runes_def decode_all.simps(2) cont_byte_def second_lo_def second_hi_def

text \<open>
  C6, amended in the length only. \<open>IsSafeSegment s\<close> holds exactly when \<open>s\<close> is not
  empty, is at most 63 bytes long, and every code point of \<open>s\<close> is a letter, a digit, the
  underscore or the hyphen. For a string of ASCII bytes that is: every byte is an ASCII
  letter, a digit, the underscore or the hyphen, whatever the range tables hold; so
  hyphens are accepted wherever they stand. A string is rejected as soon as it holds one
  ASCII byte that is none of these (a dot, a quote, a space, a dollar, a semicolon, a
  slash, an asterisk and so on), whatever else it holds; and as soon as it holds one white
  space code point, without condition up to U+00FF and, above, when the range tables do not
  list that code point as a letter or a digit (in the Unicode database no white space is
  one).
\<close>

theorem IsSafeSegment_spec:
  "(IsSafeSegment U s \<longleftrightarrow>
      s \<noteq> [] \<and> length s \<le> 63 \<and> list_all (safe_code_point U) (runes s)) \<and>
   (list_all (\<lambda>c. (of_char c :: nat) < 0x80) s \<longrightarrow>
      (IsSafeSegment U s \<longleftrightarrow> s \<noteq> [] \<and> length s \<le> 63 \<and> list_all ascii_safe_char s)) \<and>
   (c \<in> set s \<and> (of_char c :: nat) < 0x80 \<and> \<not> ascii_safe_char c \<longrightarrow> \<not> IsSafeSegment U s) \<and>
   (r \<in> set (runes s) \<and> unicode_space r \<and> (0xFF < r \<longrightarrow> \<not> Letter U r \<and> \<not> Digit U r) \<longrightarrow>
      \<not> IsSafeSegment U s)"
proof -
  have main: "IsSafeSegment U s \<longleftrightarrow>
      s \<noteq> [] \<and> length s \<le> 63 \<and> list_all (safe_code_point U) (runes s)"
    by (auto simp: IsSafeSegment_def all_safe_iff list_all_iff safe_rune_iff)
  have ascii: "IsSafeSegment U s \<longleftrightarrow> s \<noteq> [] \<and> length s \<le> 63 \<and> list_all ascii_safe_char s"
    if a: "list_all (\<lambda>c. (of_char c :: nat) < 0x80) s"
  proof -
    have "list_all (safe_code_point U) (map of_char s) \<longleftrightarrow> list_all ascii_safe_char s"
      using a by (auto simp: list_all_iff ascii_safe_code_point)
    then show ?thesis by (simp add: main runes_ascii[OF a])
  qed
  have byte: "\<not> IsSafeSegment U s"
    if "c \<in> set s" "(of_char c :: nat) < 0x80" "\<not> ascii_safe_char c"
  proof -
    have "(of_char c :: nat) \<in> set (map of_char s)"
      using that(1) by simp
    then have "of_char c \<in> set (runes s)"
      unfolding runes_def using that(2) by (rule ascii_byte_is_rune)
    moreover have "\<not> safe_code_point U (of_char c)"
      using that(2,3) by (simp add: ascii_safe_code_point)
    ultimately show ?thesis
      by (auto simp: main list_all_iff)
  qed
  have space: "\<not> IsSafeSegment U s"
    if "r \<in> set (runes s)" "unicode_space r" "0xFF < r \<longrightarrow> \<not> Letter U r \<and> \<not> Digit U r"
  proof -
    have "\<not> safe_code_point U r"
      using that(2,3) by (rule space_not_safe)
    with that(1) show ?thesis
      by (auto simp: main list_all_iff)
  qed
  show ?thesis using main ascii byte space by blast
qed

theorem IsSafeSegment_spec_witness:
  "IsSafeSegment latin1_tables ''trailinghyphen-'' \<and>
   IsSafeSegment latin1_tables ''-leadinghyphen'' \<and>
   IsSafeSegment latin1_tables ''table--comment'' \<and>
   IsSafeSegment latin1_tables ''123table'' \<and>
   IsSafeSegment latin1_tables [CHR ''t'', CHR 0xC3, CHR 0xA9] \<and>
   IsSafeSegment latin1_tables (replicate 63 (CHR ''a'')) \<and>
   \<not> IsSafeSegment latin1_tables (replicate 64 (CHR ''a'')) \<and>
   \<not> IsSafeSegment latin1_tables [] \<and>
   \<not> IsSafeSegment latin1_tables ''table.name'' \<and>
   \<not> IsSafeSegment latin1_tables [CHR ''t'', sq, CHR ''n''] \<and>
   \<not> IsSafeSegment latin1_tables [CHR ''t'', dq, CHR ''n''] \<and>
   \<not> IsSafeSegment latin1_tables ''table name'' \<and>
   \<not> IsSafeSegment latin1_tables ''table$name'' \<and>
   \<not> IsSafeSegment latin1_tables ''table;'' \<and>
   \<not> IsSafeSegment latin1_tables ''table/name'' \<and>
   \<not> IsSafeSegment latin1_tables ''table*'' \<and>
   \<not> IsSafeSegment latin1_tables [CHR ''t'', CHR 0x09, CHR 0xC3, CHR 0xA9] \<and>
   \<not> IsSafeSegment latin1_tables [CHR ''t'', CHR 0x0B] \<and>
   \<not> IsSafeSegment latin1_tables [CHR ''t'', CHR 0xC2, CHR 0xA0] \<and>
   \<not> IsSafeSegment latin1_tables [CHR ''t'', CHR 0xC2, CHR 0x85] \<and>
   \<not> IsSafeSegment latin1_tables [CHR ''t'', CHR 0xE2, CHR 0x80, CHR 0x83]"
proof -
  note by_runes = IsSafeSegment_spec[THEN conjunct1]
  note by_bytes = IsSafeSegment_spec[THEN conjunct2, THEN conjunct1, rule_format]
  note bad_byte = IsSafeSegment_spec[THEN conjunct2, THEN conjunct2, THEN conjunct1, rule_format]
  note space = IsSafeSegment_spec[THEN conjunct2, THEN conjunct2, THEN conjunct2, rule_format]
  have a: "IsSafeSegment latin1_tables ''trailinghyphen-''"
    "IsSafeSegment latin1_tables ''-leadinghyphen''"
    "IsSafeSegment latin1_tables ''table--comment''"
    "IsSafeSegment latin1_tables ''123table''"
    by (simp_all add: by_bytes ascii_safe_char_def Let_def)
  have b: "IsSafeSegment latin1_tables [CHR ''t'', CHR 0xC3, CHR 0xA9]"
    by (simp add: by_runes eval_runes safe_code_point_def)
  have c: "IsSafeSegment latin1_tables (replicate 63 (CHR ''a''))"
    "\<not> IsSafeSegment latin1_tables (replicate 64 (CHR ''a''))"
    "\<not> IsSafeSegment latin1_tables []"
    by (simp_all add: by_bytes ascii_safe_char_def list_all_iff Let_def)
  have d: "\<not> IsSafeSegment latin1_tables ''table.name''"
    "\<not> IsSafeSegment latin1_tables ''table name''"
    "\<not> IsSafeSegment latin1_tables ''table$name''"
    "\<not> IsSafeSegment latin1_tables ''table;''"
    "\<not> IsSafeSegment latin1_tables ''table/name''"
    "\<not> IsSafeSegment latin1_tables ''table*''"
    by (simp_all add: by_bytes ascii_safe_char_def Let_def)
  have e: "\<not> IsSafeSegment latin1_tables [CHR ''t'', sq, CHR ''n'']"
    by (rule bad_byte[where c = sq]) (simp add: sq_def ascii_safe_char_def Let_def)
  have f: "\<not> IsSafeSegment latin1_tables [CHR ''t'', dq, CHR ''n'']"
    by (rule bad_byte[where c = dq]) (simp add: dq_def ascii_safe_char_def Let_def)
  have g: "\<not> IsSafeSegment latin1_tables [CHR ''t'', CHR 0x09, CHR 0xC3, CHR 0xA9]"
    by (rule bad_byte[where c = "CHR 0x09"]) (simp add: ascii_safe_char_def Let_def)
  have h: "\<not> IsSafeSegment latin1_tables [CHR ''t'', CHR 0x0B]"
    by (rule space[where r = "0x0B"]) (simp add: eval_runes unicode_space_def)
  have i: "\<not> IsSafeSegment latin1_tables [CHR ''t'', CHR 0xC2, CHR 0xA0]"
    by (rule space[where r = "0xA0"]) (simp add: eval_runes unicode_space_def)
  have j: "\<not> IsSafeSegment latin1_tables [CHR ''t'', CHR 0xC2, CHR 0x85]"
    by (rule space[where r = "0x85"]) (simp add: eval_runes unicode_space_def)
  have k: "\<not> IsSafeSegment latin1_tables [CHR ''t'', CHR 0xE2, CHR 0x80, CHR 0x83]"
    by (rule space[where r = "0x2003"])
       (simp add: eval_runes unicode_space_def latin1_tables_def no_entry_def)
  show ?thesis using a b c d e f g h i j k by simp
qed

section \<open>Package template: sqlVal and sqlList\<close>

lemma sint_of_nat_small: "m < 2 ^ 63 \<Longrightarrow> sint (of_nat m :: go_int) = int m"
proof -
  assume m: "m < 2 ^ 63"
  have "sint (of_nat m :: go_int) = signed_take_bit 63 (int m)"
    by (simp add: signed_of_nat)
  also have "\<dots> = int m"
    using m by (simp add: signed_take_bit_int_eq_self)
  finally show ?thesis .
qed

lemma fmt_d_of_nat: "m < 2 ^ 63 \<Longrightarrow> fmt_d (of_nat m) = digits m"
  by (simp add: fmt_d_def sint_of_nat_small)

lemma upt_0_Suc: "[0..<Suc n] = 0 # map Suc [0..<n]"
  by (simp add: upt_conv_Cons map_Suc_upt del: upt_Suc)

text \<open>
  The loop of \<open>sqlList\<close>: element \<open>i\<close> gets the token of the counter's value plus
  \<open>i + 1\<close>, every element is appended, and the counter moves by their number.
\<close>

lemma sqlList_loop_eq:
  "sqlList_loop s fr =
     (map (\<lambda>i. ''$'' @ fmt_d (next' fr + 1 + of_nat i)) [0..<length s],
      fr\<lparr>Args := Args fr @ map String s, next' := next' fr + of_nat (length s)\<rparr>)"
proof (induction s arbitrary: fr)
  case Nil
  then show ?case by simp
next
  case (Cons x xs)
  show ?case
    by (simp add: Cons.IH upt_0_Suc comp_def add.assoc add.commute add.left_commute
             del: upt_Suc)
qed

lemma sqlVal_eq:
  "sqlVal key fr =
     (''$'' @ fmt_d (next' fr + 1),
      fr\<lparr>Args := Args fr @ [lookup fr key], next' := next' fr + 1\<rparr>)"
  by (simp add: sqlVal_def)

lemma sqlList_Strings:
  "lookup fr key = Strings s \<Longrightarrow>
   sqlList key fr =
     (''('' @ Join (map (\<lambda>i. ''$'' @ fmt_d (next' fr + 1 + of_nat i)) [0..<length s]) '','' @ '')'',
      fr\<lparr>Args := Args fr @ map String s, next' := next' fr + of_nat (length s)\<rparr>)"
  by (simp add: sqlList_def sqlList_loop_eq)

lemma sqlList_scalar:
  "(\<forall>s. lookup fr key \<noteq> Strings s) \<Longrightarrow>
   sqlList key fr =
     (''($'' @ fmt_d (next' fr + 1) @ '')'',
      fr\<lparr>Args := Args fr @ [lookup fr key], next' := next' fr + 1\<rparr>)"
  by (cases "lookup fr key") (simp_all add: sqlList_def)

text \<open>Either call, in one equation.\<close>

lemma exec_binding_eq:
  "exec_binding c fr =
     (call_text c (map (\<lambda>i. ''$'' @ fmt_d (next' fr + 1 + of_nat i)) [0..<length (bound_values fr c)]),
      fr\<lparr>Args := Args fr @ bound_values fr c,
         next' := next' fr + of_nat (length (bound_values fr c))\<rparr>)"
proof (cases c)
  case (Call_sqlVal key)
  then show ?thesis by (simp add: sqlVal_eq)
next
  case (Call_sqlList key)
  show ?thesis
  proof (cases "\<exists>s. lookup fr key = Strings s")
    case True
    then obtain s where "lookup fr key = Strings s" by blast
    then show ?thesis using Call_sqlList by (simp add: sqlList_Strings)
  next
    case False
    then have "\<forall>s. lookup fr key \<noteq> Strings s" by simp
    from sqlList_scalar[OF this] False show ?thesis
      using Call_sqlList by (cases "lookup fr key") simp_all
  qed
qed

text \<open>The counter is the length of the Argument List: each call keeps it so.\<close>

lemma exec_binding_counter:
  assumes "next' fr = of_nat (length (Args fr))" "exec_binding c fr = (out, fr1)"
  shows "next' fr1 = of_nat (length (Args fr1))"
  using assms by (auto simp: exec_binding_eq)

lemma render_counter:
  "next' fr = of_nat (length (Args fr)) \<Longrightarrow> render cs fr = (outs, fr1) \<Longrightarrow>
   next' fr1 = of_nat (length (Args fr1))"
proof (induction cs arbitrary: fr outs)
  case Nil
  then show ?case by simp
next
  case (Cons c cs)
  obtain out fr2 where e: "exec_binding c fr = (out, fr2)" by (cases "exec_binding c fr")
  obtain outs2 fr3 where r: "render cs fr2 = (outs2, fr3)" by (cases "render cs fr2")
  from Cons.prems(2) e r have "fr1 = fr3" by simp
  moreover have "next' fr2 = of_nat (length (Args fr2))"
    using exec_binding_counter[OF Cons.prems(1) e] .
  ultimately show ?case using Cons.IH r by blast
qed

lemma tokens_as_ordinals:
  assumes "n + k < 2 ^ 63"
  shows "map (\<lambda>i. ''$'' @ fmt_d (of_nat n + 1 + of_nat i)) [0..<k] =
         map placeholder [n + 1..<n + 1 + k]"
proof -
  have "''$'' @ fmt_d (of_nat n + 1 + of_nat i) = placeholder (n + 1 + i)" if "i < k" for i
  proof -
    have eq: "(of_nat n + 1 + of_nat i :: go_int) = of_nat (n + 1 + i)" by simp
    have lt: "n + 1 + i < 2 ^ 63" using that assms by linarith
    show ?thesis
      unfolding placeholder_def eq by (simp only: fmt_d_of_nat[OF lt])
  qed
  then have "map (\<lambda>i. ''$'' @ fmt_d (of_nat n + 1 + of_nat i)) [0..<k] =
             map (\<lambda>i. placeholder (n + 1 + i)) [0..<k]"
    by simp
  also have "\<dots> = map placeholder (map (\<lambda>i. i + (n + 1)) [0..<k])"
    by (simp add: comp_def add.commute)
  also have "map (\<lambda>i. i + (n + 1)) [0..<k] = [n + 1..<k + (n + 1)]"
    by (rule map_add_upt)
  also have "k + (n + 1) = n + 1 + k"
    by (simp only: add.commute)
  finally show ?thesis .
qed

text \<open>
  Different ordinals have different tokens: reading the digits back gives the number.
\<close>

lemma of_char_digit_char: "d < 10 \<Longrightarrow> of_char (digit_char d) = 48 + d"
proof -
  assume "d < 10"
  then have "d \<in> {0, 1, 2, 3, 4, 5, 6, 7, 8, 9}" by auto
  then show ?thesis by (auto simp: digit_char_def)
qed

lemma read_digits: "foldl (\<lambda>a c. 10 * a + (of_char c - 48)) 0 (digits n) = n"
proof (induction n rule: digits.induct)
  case (1 n)
  show ?case
  proof (cases "n < 10")
    case True
    then show ?thesis by (simp add: digits.simps[of n] of_char_digit_char)
  next
    case False
    have "n mod 10 < 10" by simp
    then have "of_char (digit_char (n mod 10)) = 48 + n mod 10"
      by (rule of_char_digit_char)
    with False "1.IH" show ?thesis by (simp add: digits.simps[of n])
  qed
qed

lemma placeholder_inj: "placeholder m = placeholder n \<Longrightarrow> m = n"
proof -
  assume "placeholder m = placeholder n"
  then have "digits m = digits n" by (simp add: placeholder_def)
  then have "foldl (\<lambda>a c. 10 * a + (of_char c - 48)) (0 :: nat) (digits m) =
             foldl (\<lambda>a c. 10 * a + (of_char c - 48)) (0 :: nat) (digits n)"
    by simp
  then show ?thesis by (simp only: read_digits)
qed

text \<open>
  C3. Take any sequence \<open>cs\<close> of \<open>sqlVal\<close> and \<open>sqlList\<close> calls on a fresh registry,
  and one more call \<open>c\<close> after it. (The Argument List is a Go slice, so it is shorter than
  \<open>2^63\<close>.) Before and after \<open>c\<close> the counter equals the length of the Argument List. The
  call appends exactly the values it binds, and the text it returns is made of the tokens
  of the ordinals from the old length plus 1 to the new length, in order: the first
  ordinal of a render is 1, none is skipped and none is used twice. The value of each
  ordinal stands at that position (counted from 1) of the Argument List, so the counter and
  the length are the highest ordinal so far.
\<close>

theorem placeholder_numbering:
  assumes "render cs (fresh td) = (outs, fr)"
    and "exec_binding c fr = (out, fr1)"
    and "length (Args fr1) < 2 ^ 63"
  shows "sint (next' fr) = int (length (Args fr)) \<and>
         sint (next' fr1) = int (length (Args fr1)) \<and>
         Args fr1 = Args fr @ bound_values fr c \<and>
         out = call_text c (map placeholder [length (Args fr) + 1..<length (Args fr1) + 1]) \<and>
         (\<forall>i < length (bound_values fr c).
            Args fr1 ! (length (Args fr) + 1 + i - 1) = bound_values fr c ! i)"
proof -
  let ?n = "length (Args fr)" and ?k = "length (bound_values fr c)"
  have "next' (fresh td) = of_nat (length (Args (fresh td)))"
    by (simp add: fresh_def)
  from render_counter[OF this assms(1)]
  have counter: "next' fr = of_nat ?n" .
  from exec_binding_counter[OF counter assms(2)]
  have counter1: "next' fr1 = of_nat (length (Args fr1))" .
  have args: "Args fr1 = Args fr @ bound_values fr c"
    using assms(2) by (auto simp: exec_binding_eq)
  then have len: "length (Args fr1) = ?n + ?k" by simp
  with assms(3) have small: "?n + ?k < 2 ^ 63" by simp
  then have "?n < 2 ^ 63" by linarith
  then have c0: "sint (next' fr) = int ?n"
    by (simp add: counter sint_of_nat_small)
  have c1: "sint (next' fr1) = int (length (Args fr1))"
    using assms(3) by (simp add: counter1 sint_of_nat_small)
  have "out = call_text c (map (\<lambda>i. ''$'' @ fmt_d (of_nat ?n + 1 + of_nat i)) [0..<?k])"
    using assms(2) by (auto simp: exec_binding_eq counter)
  also have "map (\<lambda>i. ''$'' @ fmt_d (of_nat ?n + 1 + of_nat i)) [0..<?k] =
             map placeholder [?n + 1..<?n + 1 + ?k]"
    by (rule tokens_as_ordinals[OF small])
  also have "?n + 1 + ?k = length (Args fr1) + 1"
    by (simp only: len add.assoc add.commute[of 1])
  finally have out_eq: "out = call_text c (map placeholder [?n + 1..<length (Args fr1) + 1])" .
  have "\<forall>i < ?k. Args fr1 ! (?n + 1 + i - 1) = bound_values fr c ! i"
    by (simp add: args nth_append)
  with c0 c1 args out_eq show ?thesis by blast
qed

lemmas eval_registry = fresh_def lookup_def sqlVal_def sqlList_def

theorem placeholder_numbering_witness:
  "render [Call_sqlVal ''id''] (fresh demo_data) =
     ([''$1''], \<lparr>TemplateData = demo_data, Args = [String ''7''], next' = 1\<rparr>) \<and>
   exec_binding (Call_sqlList ''names'') \<lparr>TemplateData = demo_data, Args = [String ''7''], next' = 1\<rparr> =
     (''($2,$3)'',
      \<lparr>TemplateData = demo_data, Args = [String ''7'', String ''a'', String ''b''], next' = 3\<rparr>) \<and>
   sint (1 :: go_int) = 1 \<and> sint (3 :: go_int) = 3 \<and>
   ''($2,$3)'' = call_text (Call_sqlList ''names'') (map placeholder [2..<4]) \<and>
   bound_values \<lparr>TemplateData = demo_data, Args = [String ''7''], next' = 1\<rparr> (Call_sqlList ''names'') =
     [String ''a'', String ''b'']"
proof -
  let ?fr = "\<lparr>TemplateData = demo_data, Args = [String ''7''], next' = 1\<rparr>"
  let ?fr1 = "\<lparr>TemplateData = demo_data, Args = [String ''7'', String ''a'', String ''b''], next' = 3\<rparr>"
  have r: "render [Call_sqlVal ''id''] (fresh demo_data) = ([''$1''], ?fr)"
    by (simp add: eval_registry demo_data_def eval_fmt)
  have e: "exec_binding (Call_sqlList ''names'') ?fr = (''($2,$3)'', ?fr1)"
    by (simp add: eval_registry demo_data_def eval_fmt)
  have small: "length (Args ?fr1) < 2 ^ 63"
    by simp
  have b: "bound_values ?fr (Call_sqlList ''names'') = [String ''a'', String ''b'']"
    by (simp add: lookup_def demo_data_def)
  from placeholder_numbering[OF r e small]
  have "sint (1 :: go_int) = 1 \<and> sint (3 :: go_int) = 3 \<and>
        ''($2,$3)'' = call_text (Call_sqlList ''names'') (map placeholder [2..<4])"
    by (simp add: numeral_eq_Suc)
  with r e b show ?thesis by simp
qed

text \<open>
  C7. On a fresh registry whose Template Data has the strings \<open>a\<close>, \<open>b\<close> under
  \<open>names\<close>, \<open>sqlVal "id"\<close> returns \<open>$1\<close> and then \<open>sqlList "names"\<close> returns
  \<open>($2,$3)\<close>, and the Argument List is the value of \<open>id\<close>, then \<open>a\<close>, then \<open>b\<close>. In
  any registry, \<open>sqlList\<close> of a sequence of strings returns one token per element, joined
  by commas between parentheses, and appends the elements; of any other value it returns
  one token between parentheses and appends the value once.
\<close>

theorem sqlVal_then_sqlList:
  assumes "td ''names'' = Some (Strings [''a'', ''b''])"
  shows "sqlVal ''id'' (fresh td) =
           (''$1'', \<lparr>TemplateData = td, Args = [lookup (fresh td) ''id''], next' = 1\<rparr>) \<and>
         sqlList ''names'' \<lparr>TemplateData = td, Args = [lookup (fresh td) ''id''], next' = 1\<rparr> =
           (''($2,$3)'',
            \<lparr>TemplateData = td, Args = [lookup (fresh td) ''id'', String ''a'', String ''b''],
             next' = 3\<rparr>) \<and>
         (lookup fr key = Strings s \<longrightarrow>
            sqlList key fr =
              (''('' @ Join (map (\<lambda>i. ''$'' @ fmt_d (next' fr + 1 + of_nat i)) [0..<length s]) '',''
                 @ '')'',
               fr\<lparr>Args := Args fr @ map String s, next' := next' fr + of_nat (length s)\<rparr>)) \<and>
         ((\<forall>s. lookup fr key \<noteq> Strings s) \<longrightarrow>
            sqlList key fr =
              (''($'' @ fmt_d (next' fr + 1) @ '')'',
               fr\<lparr>Args := Args fr @ [lookup fr key], next' := next' fr + 1\<rparr>))"
proof -
  have one: "sqlVal ''id'' (fresh td) =
      (''$1'', \<lparr>TemplateData = td, Args = [lookup (fresh td) ''id''], next' = 1\<rparr>)"
    by (simp add: sqlVal_def fresh_def eval_fmt)
  have two: "sqlList ''names'' \<lparr>TemplateData = td, Args = [lookup (fresh td) ''id''], next' = 1\<rparr> =
      (''($2,$3)'',
       \<lparr>TemplateData = td, Args = [lookup (fresh td) ''id'', String ''a'', String ''b''], next' = 3\<rparr>)"
    using assms by (simp add: sqlList_def lookup_def eval_fmt)
  show ?thesis
    using one two sqlList_Strings[of fr key s] sqlList_scalar[of fr key] by blast
qed

theorem sqlVal_then_sqlList_witness:
  "demo_data ''names'' = Some (Strings [''a'', ''b'']) \<and>
   sqlVal ''id'' (fresh demo_data) =
     (''$1'', \<lparr>TemplateData = demo_data, Args = [String ''7''], next' = 1\<rparr>) \<and>
   sqlList ''names'' \<lparr>TemplateData = demo_data, Args = [String ''7''], next' = 1\<rparr> =
     (''($2,$3)'',
      \<lparr>TemplateData = demo_data, Args = [String ''7'', String ''a'', String ''b''], next' = 3\<rparr>) \<and>
   sqlList ''id'' \<lparr>TemplateData = demo_data, Args = [], next' = 3\<rparr> =
     (''($4)'', \<lparr>TemplateData = demo_data, Args = [String ''7''], next' = 4\<rparr>) \<and>
   sqlList ''none'' \<lparr>TemplateData = demo_data, Args = [], next' = 0\<rparr> =
     (''($1)'', \<lparr>TemplateData = demo_data, Args = [Nil], next' = 1\<rparr>)"
proof -
  have names: "demo_data ''names'' = Some (Strings [''a'', ''b''])"
    by (simp add: demo_data_def)
  have id: "lookup (fresh demo_data) ''id'' = String ''7''"
    by (simp add: lookup_def fresh_def demo_data_def)
  note c7 = sqlVal_then_sqlList[where td = demo_data, OF names]
  have a: "sqlVal ''id'' (fresh demo_data) =
      (''$1'', \<lparr>TemplateData = demo_data, Args = [String ''7''], next' = 1\<rparr>)"
    using c7[THEN conjunct1] by (simp add: id)
  have b: "sqlList ''names'' \<lparr>TemplateData = demo_data, Args = [String ''7''], next' = 1\<rparr> =
      (''($2,$3)'',
       \<lparr>TemplateData = demo_data, Args = [String ''7'', String ''a'', String ''b''], next' = 3\<rparr>)"
    using c7[THEN conjunct2, THEN conjunct1] by (simp add: id)
  note scalar = c7[THEN conjunct2, THEN conjunct2, THEN conjunct2, rule_format]
  have c: "sqlList ''id'' \<lparr>TemplateData = demo_data, Args = [], next' = 3\<rparr> =
      (''($4)'', \<lparr>TemplateData = demo_data, Args = [String ''7''], next' = 4\<rparr>)"
    using scalar[of "\<lparr>TemplateData = demo_data, Args = [], next' = 3\<rparr>" "''id''"]
    by (simp add: lookup_def demo_data_def eval_fmt)
  have d: "sqlList ''none'' \<lparr>TemplateData = demo_data, Args = [], next' = 0\<rparr> =
      (''($1)'', \<lparr>TemplateData = demo_data, Args = [Nil], next' = 1\<rparr>)"
    using scalar[of "\<lparr>TemplateData = demo_data, Args = [], next' = 0\<rparr>" "''none''"]
    by (simp add: lookup_def demo_data_def eval_fmt)
  show ?thesis using names a b c d by simp
qed

section \<open>Package template: defaultOrValue and Template Data\<close>

text \<open>
  C9. \<open>defaultOrValue key defaultValue\<close> on a registry where \<open>key\<close> is absent stores
  the default under \<open>key\<close> and returns it; where \<open>key\<close> is present it returns the
  value there and leaves the registry as it was. Either way it returns the value of
  Template Data at \<open>key\<close> after the call. Every other function of the registry leaves
  Template Data as it was.
\<close>

theorem defaultOrValue_frame:
  "(TemplateData fr key = None \<longrightarrow>
      defaultOrValue key defaultValue fr =
        (String defaultValue, fr\<lparr>TemplateData := (TemplateData fr)(key \<mapsto> String defaultValue)\<rparr>)) \<and>
   (\<forall>v. TemplateData fr key = Some v \<longrightarrow> defaultOrValue key defaultValue fr = (v, fr)) \<and>
   TemplateData (snd (defaultOrValue key defaultValue fr)) key =
     Some (fst (defaultOrValue key defaultValue fr)) \<and>
   ((\<forall>k d. c \<noteq> Call_defaultOrValue k d) \<longrightarrow>
      TemplateData (snd (exec fmtv strings_Split c fr)) = TemplateData fr)"
proof -
  have absent: "defaultOrValue key defaultValue fr =
      (String defaultValue, fr\<lparr>TemplateData := (TemplateData fr)(key \<mapsto> String defaultValue)\<rparr>)"
    if "TemplateData fr key = None"
    using that by (simp add: defaultOrValue_def isSet_def lookup_def)
  have present: "defaultOrValue key defaultValue fr = (v, fr)"
    if "TemplateData fr key = Some v" for v
    using that by (simp add: defaultOrValue_def isSet_def lookup_def)
  have after: "TemplateData (snd (defaultOrValue key defaultValue fr)) key =
      Some (fst (defaultOrValue key defaultValue fr))"
    by (cases "TemplateData fr key") (simp_all add: absent present)
  have frame: "TemplateData (snd (exec fmtv strings_Split c fr)) = TemplateData fr"
    if "\<forall>k d. c \<noteq> Call_defaultOrValue k d"
  proof (cases c)
    case (Call_binding b)
    then show ?thesis by (simp add: exec_binding_eq)
  next
    case (Call_defaultOrValue k d)
    with that show ?thesis by simp
  next
    case (Call_ident k)
    then show ?thesis by (cases "ident k fr") simp
  qed simp_all
  show ?thesis using absent present after frame by blast
qed

theorem defaultOrValue_frame_witness:
  "defaultOrValue ''limit'' ''10'' (fresh demo_data) =
     (String ''10'', \<lparr>TemplateData = demo_data(''limit'' \<mapsto> String ''10''), Args = [], next' = 0\<rparr>) \<and>
   defaultOrValue ''id'' ''10'' (fresh demo_data) = (String ''7'', fresh demo_data) \<and>
   TemplateData (snd (exec digits (\<lambda>orig sep. [orig]) (Call_binding (Call_sqlList ''names'')) (fresh demo_data))) =
     demo_data \<and>
   TemplateData (snd (exec digits (\<lambda>orig sep. [orig]) (Call_ident ''id'') (fresh demo_data))) = demo_data"
proof -
  note c9 = defaultOrValue_frame[of "fresh demo_data"]
  have a: "defaultOrValue ''limit'' ''10'' (fresh demo_data) =
     (String ''10'', \<lparr>TemplateData = demo_data(''limit'' \<mapsto> String ''10''), Args = [], next' = 0\<rparr>)"
    using c9[of "''limit''" "''10''", THEN conjunct1] by (simp add: fresh_def demo_data_def)
  have b: "defaultOrValue ''id'' ''10'' (fresh demo_data) = (String ''7'', fresh demo_data)"
    using c9[of "''id''" "''10''", THEN conjunct2, THEN conjunct1] by (simp add: fresh_def demo_data_def)
  note frame = c9[THEN conjunct2, THEN conjunct2, THEN conjunct2, rule_format]
  have c: "TemplateData (snd (exec digits (\<lambda>orig sep. [orig]) (Call_binding (Call_sqlList ''names'')) (fresh demo_data))) =
     demo_data"
    using frame[of "Call_binding (Call_sqlList ''names'')"] by (simp add: fresh_def)
  have d: "TemplateData (snd (exec digits (\<lambda>orig sep. [orig]) (Call_ident ''id'') (fresh demo_data))) = demo_data"
    using frame[of "Call_ident ''id''"] by (simp add: fresh_def)
  show ?thesis using a b c d by simp
qed

end
